theory Spec2Isabelle
  imports Main "HOL-Library.Word"
begin

section \<open>Strings\<close>

text \<open>
  A JavaScript string is a sequence of UTF-16 code units; \<open>length\<close> counts code units and a
  regular expression without the \<open>u\<close> flag matches code unit by code unit.
  \<open>ascii\<close> writes an ASCII literal as such a sequence.
\<close>

type_synonym jschar = "16 word"
type_synonym jsstring = "jschar list"

definition ascii :: "string \<Rightarrow> jsstring" where
  "ascii s = map (\<lambda>c. of_nat (of_char c)) s"

text \<open>
  The code units that \<open>String.prototype.trim\<close> strips and that \<open>\s\<close> matches: the
  WhiteSpace and LineTerminator productions of ECMAScript.
\<close>

definition isWhiteSpace :: "jschar \<Rightarrow> bool" where
  "isWhiteSpace c \<longleftrightarrow>
     (0x09 \<le> c \<and> c \<le> 0x0D) \<or> c = 0x20 \<or> c = 0xA0 \<or> c = 0x1680 \<or>
     (0x2000 \<le> c \<and> c \<le> 0x200A) \<or> c = 0x2028 \<or> c = 0x2029 \<or>
     c = 0x202F \<or> c = 0x205F \<or> c = 0x3000 \<or> c = 0xFEFF"

definition trim :: "jsstring \<Rightarrow> jsstring" where
  "trim s = rev (dropWhile isWhiteSpace (rev (dropWhile isWhiteSpace s)))"

text \<open>\<open>toLowerCase\<close>, on the ASCII letters (it is applied to tag names only).\<close>

definition toLowerCase :: "jsstring \<Rightarrow> jsstring" where
  "toLowerCase s = map (\<lambda>c. if 0x41 \<le> c \<and> c \<le> 0x5A then c + 0x20 else c) s"

section \<open>Regular expressions\<close>

text \<open>
  The three patterns of \<open>validateField\<close> are anchored at both ends (\<open>^...$\<close>, no flags), so
  \<open>RegExp.prototype.test\<close> asks whether the whole string is in the pattern's language. The
  patterns are kept as syntax trees and matched by derivatives.
\<close>

datatype citem = Ch jschar | Range jschar jschar | WhiteSpaceEsc

fun citem_mem :: "citem \<Rightarrow> jschar \<Rightarrow> bool" where
  "citem_mem (Ch a) c = (c = a)"
| "citem_mem (Range a b) c = (a \<le> c \<and> c \<le> b)"
| "citem_mem WhiteSpaceEsc c = isWhiteSpace c"

datatype regex =
    Nothing
  | Eps
  | Cls "citem list"
  | NCls "citem list"
  | Then regex regex
  | Alt regex regex
  | Star regex

definition in_class :: "citem list \<Rightarrow> jschar \<Rightarrow> bool" where
  "in_class items c = list_ex (\<lambda>i. citem_mem i c) items"

fun nullable :: "regex \<Rightarrow> bool" where
  "nullable Nothing = False"
| "nullable Eps = True"
| "nullable (Cls items) = False"
| "nullable (NCls items) = False"
| "nullable (Then r s) = (nullable r \<and> nullable s)"
| "nullable (Alt r s) = (nullable r \<or> nullable s)"
| "nullable (Star r) = True"

fun deriv :: "jschar \<Rightarrow> regex \<Rightarrow> regex" where
  "deriv c Nothing = Nothing"
| "deriv c Eps = Nothing"
| "deriv c (Cls items) = (if in_class items c then Eps else Nothing)"
| "deriv c (NCls items) = (if in_class items c then Nothing else Eps)"
| "deriv c (Then r s) =
     (if nullable r then Alt (Then (deriv c r) s) (deriv c s) else Then (deriv c r) s)"
| "deriv c (Alt r s) = Alt (deriv c r) (deriv c s)"
| "deriv c (Star r) = Then (deriv c r) (Star r)"

fun test :: "regex \<Rightarrow> jsstring \<Rightarrow> bool" where
  "test r [] = nullable r"
| "test r (c # cs) = test (deriv c r) cs"

text \<open>The quantifiers \<open>{n,}\<close> (with \<open>+\<close> as \<open>{1,}\<close>) and \<open>?\<close>.\<close>

fun at_least :: "nat \<Rightarrow> regex \<Rightarrow> regex" where
  "at_least 0 r = Star r"
| "at_least (Suc n) r = Then r (at_least n r)"

definition optional :: "regex \<Rightarrow> regex" where
  "optional r = Alt r Eps"

text \<open>\<^verbatim>\<open>/^[^\s@]+@[^\s@]+\.[^\s@]+$/\<close>\<close>

definition emailRegex :: regex where
  "emailRegex =
     Then (at_least 1 (NCls [WhiteSpaceEsc, Ch 0x40]))
    (Then (Cls [Ch 0x40])
    (Then (at_least 1 (NCls [WhiteSpaceEsc, Ch 0x40]))
    (Then (Cls [Ch 0x2E])
          (at_least 1 (NCls [WhiteSpaceEsc, Ch 0x40])))))"

text \<open>\<^verbatim>\<open>/^[\+]?[0-9\s\-\(\)\.]{8,}$/\<close>\<close>

definition phoneRegex :: regex where
  "phoneRegex =
     Then (optional (Cls [Ch 0x2B]))
          (at_least 8 (Cls [Range 0x30 0x39, WhiteSpaceEsc, Ch 0x2D, Ch 0x28, Ch 0x29, Ch 0x2E]))"

text \<open>
  \<^verbatim>\<open>/^[a-zA-Z......\s\-\.]{2,}$/\<close>, the six dots standing for the letters
  U+00E4, U+00F6, U+00FC, U+00C4, U+00D6, U+00DC and U+00DF of the source.
\<close>

definition nameRegex :: regex where
  "nameRegex =
     at_least 2 (Cls [Range 0x61 0x7A, Range 0x41 0x5A,
                      Ch 0xE4, Ch 0xF6, Ch 0xFC, Ch 0xC4, Ch 0xD6, Ch 0xDC, Ch 0xDF,
                      WhiteSpaceEsc, Ch 0x2D, Ch 0x2E])"

section \<open>The document\<close>

text \<open>
  The form element and everything below it, as a tree of elements with identities. The markup
  of the page is not part of the scripts, so the tree is an input. \<open>field.type\<close> and
  \<open>field.tagName\<close> are determined by the kind of element, as in the DOM.
\<close>

datatype kind =
    Input jsstring
  | Textarea
  | Select bool
  | Button "jsstring option"
  | Other jsstring

fun tagName :: "kind \<Rightarrow> jsstring" where
  "tagName (Input t) = ascii ''INPUT''"
| "tagName Textarea = ascii ''TEXTAREA''"
| "tagName (Select multiple) = ascii ''SELECT''"
| "tagName (Button t) = ascii ''BUTTON''"
| "tagName (Other tag) = tag"

fun typeProp :: "kind \<Rightarrow> jsstring" where
  "typeProp (Input t) = t"
| "typeProp Textarea = ascii ''textarea''"
| "typeProp (Select multiple) = (if multiple then ascii ''select-multiple'' else ascii ''select-one'')"
| "typeProp (Button t) =
     (if t = Some (ascii ''reset'') then ascii ''reset''
      else if t = Some (ascii ''button'') then ascii ''button''
      else ascii ''submit'')"
| "typeProp (Other tag) = []"

text \<open>
  What \<open>innerHTML\<close> is set to: the scripts' templates, by name, with the text they
  interpolate. None of the templates contains a form control, a button or an element of
  class \<open>error\<close>, \<open>error-message\<close> or \<open>form-message\<close>.
\<close>

datatype markup =
    Html jsstring
  | SpinnerLabel
  | SuccessBanner
  | ErrorBanner jsstring
  | FieldError jsstring

record element =
  kind :: kind
  classList :: "jsstring list"
  name :: jsstring
  fieldValue :: jsstring
  checked :: bool
  required :: bool
  defaultValue :: jsstring
  defaultChecked :: bool
  disabled :: bool
  innerHTML :: markup

datatype dom = Elem (nid: nat) (el: element) (kids: "dom list")

fun nodes :: "dom \<Rightarrow> dom list" where
  "nodes (Elem i e ks) = Elem i e ks # concat (map nodes ks)"

definition descendants :: "dom \<Rightarrow> dom list" where
  "descendants t = concat (map nodes (kids t))"

definition getNode :: "nat \<Rightarrow> dom \<Rightarrow> dom option" where
  "getNode i t = find (\<lambda>n. nid n = i) (nodes t)"

definition parentNode :: "nat \<Rightarrow> dom \<Rightarrow> nat option" where
  "parentNode i t = map_option nid (find (\<lambda>n. i \<in> set (map nid (kids n))) (nodes t))"

definition querySelectorAll :: "(element \<Rightarrow> bool) \<Rightarrow> nat \<Rightarrow> dom \<Rightarrow> nat list" where
  "querySelectorAll sel p t =
     (case getNode p t of None \<Rightarrow> []
      | Some n \<Rightarrow> map nid (filter (\<lambda>m. sel (el m)) (descendants n)))"

definition querySelector :: "(element \<Rightarrow> bool) \<Rightarrow> nat \<Rightarrow> dom \<Rightarrow> dom option" where
  "querySelector sel p t =
     (case getNode p t of None \<Rightarrow> None
      | Some n \<Rightarrow> find (\<lambda>m. sel (el m)) (descendants n))"

fun removeNode :: "nat \<Rightarrow> dom \<Rightarrow> dom" where
  "removeNode i (Elem j e ks) = Elem j e (map (removeNode i) (filter (\<lambda>k. nid k \<noteq> i) ks))"

fun modify :: "nat \<Rightarrow> (element \<Rightarrow> element) \<Rightarrow> dom \<Rightarrow> dom" where
  "modify i f (Elem j e ks) = Elem j (if j = i then f e else e) (map (modify i f) ks)"

fun appendChild :: "nat \<Rightarrow> dom \<Rightarrow> dom \<Rightarrow> dom" where
  "appendChild p new (Elem j e ks) =
     Elem j e (map (appendChild p new) ks @ (if j = p then [new] else []))"

fun insertFirst :: "nat \<Rightarrow> dom \<Rightarrow> dom \<Rightarrow> dom" where
  "insertFirst p new (Elem j e ks) =
     Elem j e ((if j = p then [new] else []) @ map (insertFirst p new) ks)"

text \<open>
  The selectors of the scripts: a class, \<open>input, textarea, select\<close> and
  \<open>button[type="submit"]\<close>.
\<close>

definition hasClass :: "jsstring \<Rightarrow> element \<Rightarrow> bool" where
  "hasClass c e \<longleftrightarrow> c \<in> set (classList e)"

fun isControl :: "kind \<Rightarrow> bool" where
  "isControl (Input t) = True"
| "isControl Textarea = True"
| "isControl (Select m) = True"
| "isControl _ = False"

definition isSubmitButton :: "element \<Rightarrow> bool" where
  "isSubmitButton e \<longleftrightarrow> kind e = Button (Some (ascii ''submit''))"

text \<open>\<open>classList.remove\<close> and \<open>classList.add\<close> with several tokens.\<close>

definition classList_remove :: "jsstring list \<Rightarrow> element \<Rightarrow> element" where
  "classList_remove cs e = e\<lparr>classList := filter (\<lambda>c. c \<notin> set cs) (classList e)\<rparr>"

definition classList_add :: "jsstring list \<Rightarrow> element \<Rightarrow> element" where
  "classList_add cs e =
     e\<lparr>classList := foldl (\<lambda>l c. if c \<in> set l then l else l @ [c]) (classList e) cs\<rparr>"

text \<open>\<open>document.createElement('div')\<close> followed by the assignments to \<open>className\<close> and \<open>innerHTML\<close>.\<close>

definition newDiv :: "jsstring list \<Rightarrow> markup \<Rightarrow> element" where
  "newDiv cs m =
     \<lparr>kind = Other (ascii ''DIV''), classList = cs, name = [], fieldValue = [],
      checked = False, required = False, defaultValue = [], defaultChecked = False,
      disabled = False, innerHTML = m\<rparr>"

section \<open>The page\<close>

text \<open>
  The state the scripts act on: the form's tree, the identity the next created element gets,
  the clock in milliseconds and the pending \<open>setTimeout\<close> callbacks with their due times.
\<close>

datatype task =
    CallHandleFormSuccess nat markup
  | RemoveMessage nat

record page =
  doc :: dom
  next_id :: nat
  now :: nat
  timers :: "(nat \<times> task) list"

datatype js_error = TypeError | SyntaxError

definition form :: "page \<Rightarrow> nat" where
  "form s = nid (doc s)"

section \<open>validateField\<close>

definition msgPrivacy :: jsstring where
  "msgPrivacy = ascii ''Sie m'' @ [0xFC] @ ascii ''ssen der Datenschutzerkl'' @ [0xE4]
                @ ascii ''rung zustimmen.''"

definition msgNameRequired :: jsstring where
  "msgNameRequired = ascii ''Bitte geben Sie Ihren Namen ein.''"

definition msgEmailRequired :: jsstring where
  "msgEmailRequired = ascii ''Bitte geben Sie Ihre E-Mail-Adresse ein.''"

definition msgMessageRequired :: jsstring where
  "msgMessageRequired = ascii ''Bitte geben Sie eine Nachricht ein.''"

definition msgRequired :: jsstring where
  "msgRequired = ascii ''Dieses Feld ist erforderlich.''"

definition msgEmailInvalid :: jsstring where
  "msgEmailInvalid = ascii ''Bitte geben Sie eine g'' @ [0xFC] @ ascii ''ltige E-Mail-Adresse ein.''"

definition msgPhoneInvalid :: jsstring where
  "msgPhoneInvalid = ascii ''Bitte geben Sie eine g'' @ [0xFC] @ ascii ''ltige Telefonnummer ein.''"

definition msgNameInvalid :: jsstring where
  "msgNameInvalid = ascii ''Bitte geben Sie einen g'' @ [0xFC]
                    @ ascii ''ltigen Namen ein (mindestens 2 Zeichen).''"

definition msgTooShort :: jsstring where
  "msgTooShort = ascii ''Ihre Nachricht sollte mindestens 10 Zeichen lang sein.''"

definition msgTooLong :: jsstring where
  "msgTooLong = ascii ''Ihre Nachricht ist zu lang (maximal 1000 Zeichen).''"

text \<open>
  The computation of \<open>isValid\<close> and \<open>errorMessage\<close> in \<open>validateField\<close>: the two variables
  start as \<open>(True, [])\<close> and each block of the source updates the pair.
\<close>

definition requiredMessage :: "jsstring \<Rightarrow> jsstring" where
  "requiredMessage fieldName =
     (if fieldName = ascii ''name'' then msgNameRequired
      else if fieldName = ascii ''email'' then msgEmailRequired
      else if fieldName = ascii ''message'' then msgMessageRequired
      else msgRequired)"

definition presenceCheck :: "element \<Rightarrow> jsstring \<Rightarrow> bool \<times> jsstring" where
  "presenceCheck e v =
     (if typeProp (kind e) = ascii ''checkbox'' \<and> required e then
        (if \<not> checked e then (False, msgPrivacy) else (True, []))
      else if required e \<and> v = [] then (False, requiredMessage (name e))
      else (True, []))"

definition typeCheck :: "element \<Rightarrow> jsstring \<Rightarrow> bool \<times> jsstring \<Rightarrow> bool \<times> jsstring" where
  "typeCheck e v r =
     (if typeProp (kind e) = ascii ''email'' then
        (if \<not> test emailRegex v then (False, msgEmailInvalid) else r)
      else if typeProp (kind e) = ascii ''tel'' then
        (if \<not> test phoneRegex v then (False, msgPhoneInvalid) else r)
      else if typeProp (kind e) = ascii ''text'' then
        (if name e = ascii ''name'' then
           (if \<not> test nameRegex v then (False, msgNameInvalid) else r)
         else r)
      else r)"

definition lengthCheck :: "element \<Rightarrow> jsstring \<Rightarrow> bool \<times> jsstring \<Rightarrow> bool \<times> jsstring" where
  "lengthCheck e v r =
     (if toLowerCase (tagName (kind e)) = ascii ''textarea'' \<and> name e = ascii ''message'' then
        (if length v < 10 then (False, msgTooShort)
         else if length v > 1000 then (False, msgTooLong)
         else r)
      else r)"

definition trimmedValue :: "element \<Rightarrow> jsstring" where
  "trimmedValue e = (if fieldValue e \<noteq> [] then trim (fieldValue e) else [])"

definition checkField :: "element \<Rightarrow> bool \<times> jsstring" where
  "checkField e =
     (let v = trimmedValue e;
          r = presenceCheck e v
      in if v \<noteq> [] \<and> fst r then lengthCheck e v (typeCheck e v r) else r)"

text \<open>The head of \<open>validateField\<close>: the field loses its error classes and the first
  \<open>.error-message\<close> below the field's parent is removed.\<close>

definition clearError :: "nat \<Rightarrow> nat \<Rightarrow> page \<Rightarrow> page" where
  "clearError f p s =
     (let d = modify f (classList_remove [ascii ''error'', ascii ''border-red-500'']) (doc s)
      in s\<lparr>doc := (case querySelector (hasClass (ascii ''error-message'')) p d of
                      None \<Rightarrow> d
                    | Some existingError \<Rightarrow> removeNode (nid existingError) d)\<rparr>)"

text \<open>The tail of \<open>validateField\<close>: the field gets the error classes and a new
  \<open>div.error-message\<close> with the message becomes the last child of the field's parent.\<close>

definition errorMessageClasses :: "jsstring list" where
  "errorMessageClasses =
     [ascii ''error-message'', ascii ''text-red-600'', ascii ''text-sm'', ascii ''mt-2'',
      ascii ''flex'', ascii ''items-center'']"

definition showError :: "nat \<Rightarrow> nat \<Rightarrow> jsstring \<Rightarrow> page \<Rightarrow> page" where
  "showError f p errorMessage s =
     (let d = modify f (classList_add [ascii ''error'', ascii ''border-red-500'']) (doc s);
          errorElement = Elem (next_id s) (newDiv errorMessageClasses (FieldError errorMessage)) []
      in s\<lparr>doc := appendChild p errorElement d, next_id := Suc (next_id s)\<rparr>)"

text \<open>
  \<open>validateField(field)\<close>, the field given by its identity. A field that is not in the tree
  below the form has no \<open>parentNode\<close>, and \<open>field.parentNode.querySelector\<close> throws.
\<close>

definition validateField :: "nat \<Rightarrow> page \<Rightarrow> js_error + bool \<times> page" where
  "validateField f s =
     (case getNode f (doc s) of
        None \<Rightarrow> Inl TypeError
      | Some n \<Rightarrow>
         (case parentNode f (doc s) of
            None \<Rightarrow> Inl TypeError
          | Some p \<Rightarrow>
             (let (isValid, errorMessage) = checkField (el n);
                  s1 = clearError f p s
              in Inr (isValid, if \<not> isValid then showError f p errorMessage s1 else s1))))"

section \<open>The form controller\<close>

definition setTimeout :: "task \<Rightarrow> nat \<Rightarrow> page \<Rightarrow> page" where
  "setTimeout callback delay s = s\<lparr>timers := timers s @ [(now s + delay, callback)]\<rparr>"

definition forEach :: "nat list \<Rightarrow> (nat \<Rightarrow> dom \<Rightarrow> dom) \<Rightarrow> dom \<Rightarrow> dom" where
  "forEach xs f d = fold f xs d"

text \<open>
  \<open>validateForm\<close>: the list of fields is taken once, then each is validated in turn. An
  exception ends the loop, with the page as the fields before left it.
\<close>

fun validateFields :: "nat list \<Rightarrow> page \<Rightarrow> js_error \<times> page + bool \<times> page" where
  "validateFields [] s = Inr (True, s)"
| "validateFields (f # fs) s =
     (case validateField f s of
        Inl e \<Rightarrow> Inl (e, s)
      | Inr (ok, s1) \<Rightarrow>
         (case validateFields fs s1 of
            Inl err \<Rightarrow> Inl err
          | Inr (rest, s2) \<Rightarrow> Inr (ok \<and> rest, s2)))"

definition validateForm :: "nat \<Rightarrow> page \<Rightarrow> js_error \<times> page + bool \<times> page" where
  "validateForm frm s =
     validateFields (querySelectorAll (\<lambda>e. isControl (kind e)) frm (doc s)) s"

text \<open>
  \<open>form.reset()\<close> gives every control of the form its default value and checkedness. The
  \<open>value\<close> of a checkbox, a radio button, a hidden input and a button input is the value
  attribute itself, which a reset leaves as it is.
\<close>

fun valueIsAttribute :: "kind \<Rightarrow> bool" where
  "valueIsAttribute (Input t) =
     (t \<in> set [ascii ''checkbox'', ascii ''radio'', ascii ''hidden'', ascii ''submit'',
                ascii ''image'', ascii ''reset'', ascii ''button''])"
| "valueIsAttribute k = False"

definition resetControl :: "element \<Rightarrow> element" where
  "resetControl e =
     (if valueIsAttribute (kind e) then e\<lparr>checked := defaultChecked e\<rparr>
      else e\<lparr>fieldValue := defaultValue e, checked := defaultChecked e\<rparr>)"

definition removeExistingMessage :: "nat \<Rightarrow> dom \<Rightarrow> dom" where
  "removeExistingMessage frm d =
     (case querySelector (hasClass (ascii ''form-message'')) frm d of
        None \<Rightarrow> d
      | Some existingMessage \<Rightarrow> removeNode (nid existingMessage) d)"

definition successClasses :: "jsstring list" where
  "successClasses =
     [ascii ''form-message'', ascii ''bg-green-50'', ascii ''border'', ascii ''border-green-200'',
      ascii ''text-green-800'', ascii ''px-6'', ascii ''py-4'', ascii ''rounded-lg'', ascii ''mb-6'']"

definition errorClasses :: "jsstring list" where
  "errorClasses =
     [ascii ''form-message'', ascii ''bg-red-50'', ascii ''border'', ascii ''border-red-200'',
      ascii ''text-red-800'', ascii ''px-6'', ascii ''py-4'', ascii ''rounded-lg'', ascii ''mb-6'']"

text \<open>
  \<open>handleFormSuccess(form, submitButton, originalButtonText)\<close>. Scrolling the message into
  view does not change the page's state and is left out.
\<close>

definition handleFormSuccess :: "nat \<Rightarrow> nat \<Rightarrow> markup \<Rightarrow> page \<Rightarrow> page" where
  "handleFormSuccess frm submitButton originalButtonText s =
     (let d1 = removeExistingMessage frm (doc s);
          successMessage = next_id s;
          d2 = insertFirst frm (Elem successMessage (newDiv successClasses SuccessBanner) []) d1;
          d3 = forEach (querySelectorAll (\<lambda>e. isControl (kind e)) frm d2)
                 (\<lambda>i. modify i resetControl) d2;
          d4 = forEach (querySelectorAll (hasClass (ascii ''error'')) frm d3)
                 (\<lambda>i. modify i (classList_remove [ascii ''error'', ascii ''border-red-500''])) d3;
          d5 = forEach (querySelectorAll (hasClass (ascii ''error-message'')) frm d4) removeNode d4;
          d6 = modify submitButton (\<lambda>e. e\<lparr>disabled := False, innerHTML := originalButtonText\<rparr>) d5
      in setTimeout (RemoveMessage successMessage) 8000
           (s\<lparr>doc := d6, next_id := Suc successMessage\<rparr>))"

text \<open>\<open>handleFormError(form, submitButton, originalButtonText, errorMsg)\<close>.\<close>

definition handleFormError :: "nat \<Rightarrow> nat \<Rightarrow> markup \<Rightarrow> jsstring \<Rightarrow> page \<Rightarrow> page" where
  "handleFormError frm submitButton originalButtonText errorMsg s =
     (let d1 = removeExistingMessage frm (doc s);
          errorMessage = next_id s;
          d2 = insertFirst frm (Elem errorMessage (newDiv errorClasses (ErrorBanner errorMsg)) []) d1;
          d3 = modify submitButton (\<lambda>e. e\<lparr>disabled := False, innerHTML := originalButtonText\<rparr>) d2
      in setTimeout (RemoveMessage errorMessage) 8000
           (s\<lparr>doc := d3, next_id := Suc errorMessage\<rparr>))"

text \<open>
  The two kinds of callback given to \<open>setTimeout\<close>: the simulated submission of
  \<open>initContactForm\<close>, and the removal of a message, \<open>if (m.parentNode) m.remove()\<close>.
\<close>

fun runTask :: "task \<Rightarrow> page \<Rightarrow> page" where
  "runTask (CallHandleFormSuccess submitButton originalButtonText) s =
     handleFormSuccess (form s) submitButton originalButtonText s"
| "runTask (RemoveMessage m) s =
     (if parentNode m (doc s) \<noteq> None then s\<lparr>doc := removeNode m (doc s)\<rparr> else s)"

text \<open>
  The listeners that \<open>initContactForm\<close> registers. An exception that a listener does not
  catch ends the listener; the page stays as it was at that point.
\<close>

definition submitListener :: "page \<Rightarrow> js_error option \<times> page" where
  "submitListener s =
     (case validateForm (form s) s of
        Inl (e, s1) \<Rightarrow> (Some e, s1)
      | Inr (isFormValid, s1) \<Rightarrow>
          if \<not> isFormValid then (None, s1)
          else
            (case querySelector isSubmitButton (form s1) (doc s1) of
               None \<Rightarrow> (Some TypeError, s1)
             | Some submitButton \<Rightarrow>
                 (let originalButtonText = innerHTML (el submitButton);
                      d = modify (nid submitButton)
                            (\<lambda>e. e\<lparr>disabled := True, innerHTML := SpinnerLabel\<rparr>) (doc s1)
                  in (None, setTimeout
                              (CallHandleFormSuccess (nid submitButton) originalButtonText) 2000
                              (s1\<lparr>doc := d\<rparr>)))))"

definition blurListener :: "nat \<Rightarrow> page \<Rightarrow> page" where
  "blurListener f s = (case validateField f s of Inl e \<Rightarrow> s | Inr (ok, s1) \<Rightarrow> s1)"

definition inputListener :: "nat \<Rightarrow> page \<Rightarrow> page" where
  "inputListener f s =
     (case getNode f (doc s) of
        None \<Rightarrow> s
      | Some n \<Rightarrow> if hasClass (ascii ''error'') (el n) then blurListener f s else s)"

definition changeListener :: "nat \<Rightarrow> page \<Rightarrow> page" where
  "changeListener f s =
     (case getNode f (doc s) of
        None \<Rightarrow> s
      | Some n \<Rightarrow> if typeProp (kind (el n)) = ascii ''checkbox'' then blurListener f s else s)"

text \<open>
  What happens to the page: the user submits the form, leaves a field, types into it or
  changes it (the events), the user gives a field a new value and checkedness, time passes,
  and a callback that is due runs. A submit event is dispatched only while the submit control
  is not disabled, field events only at controls of the form, time passes only up to the next
  due time, and the callbacks that are due run in the order of their registration.
\<close>

datatype event =
    Submit
  | Blur nat
  | InputEvent nat
  | Change nat
  | UserSets nat jsstring bool
  | Wait nat
  | Fire

definition isField :: "nat \<Rightarrow> page \<Rightarrow> bool" where
  "isField f s \<longleftrightarrow> f \<in> set (querySelectorAll (\<lambda>e. isControl (kind e)) (form s) (doc s))"

definition submitEnabled :: "page \<Rightarrow> bool" where
  "submitEnabled s \<longleftrightarrow>
     (case querySelector isSubmitButton (form s) (doc s) of
        None \<Rightarrow> True
      | Some b \<Rightarrow> \<not> disabled (el b))"

fun step :: "event \<Rightarrow> page \<Rightarrow> page option" where
  "step Submit s = (if submitEnabled s then Some (snd (submitListener s)) else None)"
| "step (Blur f) s = (if isField f s then Some (blurListener f s) else None)"
| "step (InputEvent f) s = (if isField f s then Some (inputListener f s) else None)"
| "step (Change f) s = (if isField f s then Some (changeListener f s) else None)"
| "step (UserSets f v c) s =
     (if isField f s
      then Some (s\<lparr>doc := modify f (\<lambda>e. e\<lparr>fieldValue := v, checked := c\<rparr>) (doc s)\<rparr>)
      else None)"
| "step (Wait d) s =
     (if list_all (\<lambda>(t, k). now s + d \<le> t) (timers s) then Some (s\<lparr>now := now s + d\<rparr>)
      else None)"
| "step Fire s =
     (case find (\<lambda>(t, k). t \<le> now s) (timers s) of
        None \<Rightarrow> None
      | Some (t, k) \<Rightarrow> Some (runTask k (s\<lparr>timers := remove1 (t, k) (timers s)\<rparr>)))"

fun run :: "event list \<Rightarrow> page \<Rightarrow> page option" where
  "run [] s = Some s"
| "run (e # es) s = (case step e s of None \<Rightarrow> None | Some s1 \<Rightarrow> run es s1)"

section \<open>The form endpoint\<close>

text \<open>
  The two serverless handlers, \<open>netlify/functions/contact-form.js\<close> and \<open>api/contact.js\<close>.
  The body of a request is arbitrary JSON, so its fields are JavaScript values. A number is
  kept as what the handlers can observe of it: whether it is truthy, and the string that
  \<open>ToString\<close> gives. \<open>JObj\<close> lists an object's own properties.
\<close>

datatype jsval =
    JUndefined
  | JNull
  | JBool bool
  | JNum bool jsstring
  | JStr jsstring
  | JArr "jsval list"
  | JObj "(jsstring \<times> jsval) list"

text \<open>\<open>!v\<close> is \<open>\<not> truthy v\<close>.\<close>

fun truthy :: "jsval \<Rightarrow> bool" where
  "truthy JUndefined = False"
| "truthy JNull = False"
| "truthy (JBool b) = b"
| "truthy (JNum nonzero text) = nonzero"
| "truthy (JStr s) = (s \<noteq> [])"
| "truthy (JArr xs) = True"
| "truthy (JObj kvs) = True"

text \<open>
  \<open>formData[field]\<close> for the four field names the handlers read; no built-in prototype has
  a property of one of these names, so only an object's own properties count. Reading a
  property of \<open>undefined\<close> or \<open>null\<close> throws.
\<close>

fun getProp :: "jsval \<Rightarrow> jsstring \<Rightarrow> js_error + jsval" where
  "getProp JUndefined k = Inl TypeError"
| "getProp JNull k = Inl TypeError"
| "getProp (JObj kvs) k = Inr (case map_of kvs k of None \<Rightarrow> JUndefined | Some v \<Rightarrow> v)"
| "getProp v k = Inr JUndefined"

text \<open>
  \<open>emailRegex.test(v)\<close> converts \<open>v\<close> to a string first. An array joins its elements with
  commas, \<open>null\<close> and \<open>undefined\<close> elements as empty strings. An object parsed from JSON
  gives \<open>[object Object]\<close>, unless it has an own property \<open>toString\<close>, which is not
  callable and makes the conversion throw.
\<close>

fun toStringJS :: "jsval \<Rightarrow> js_error + jsstring"
  and joinJS :: "jsval list \<Rightarrow> js_error + jsstring"
  where
  "toStringJS JUndefined = Inr (ascii ''undefined'')"
| "toStringJS JNull = Inr (ascii ''null'')"
| "toStringJS (JBool b) = Inr (if b then ascii ''true'' else ascii ''false'')"
| "toStringJS (JNum nonzero text) = Inr text"
| "toStringJS (JStr s) = Inr s"
| "toStringJS (JArr xs) = joinJS xs"
| "toStringJS (JObj kvs) =
     (if map_of kvs (ascii ''toString'') \<noteq> None then Inl TypeError
      else Inr (ascii ''[object Object]''))"
| "joinJS [] = Inr []"
| "joinJS (x # xs) =
     (case (if x = JUndefined \<or> x = JNull then Inr [] else toStringJS x) of
        Inl e \<Rightarrow> Inl e
      | Inr s \<Rightarrow>
         (if xs = [] then Inr s
          else (case joinJS xs of Inl e \<Rightarrow> Inl e | Inr t \<Rightarrow> Inr (s @ ascii '','' @ t))))"

text \<open>
  A request: the method, what \<open>JSON.parse(event.body)\<close> (Netlify) or reading \<open>req.body\<close>
  (Vercel) yields, a value or an exception, and the two parts of the lead identifier that
  come from the environment, \<open>Date.now()\<close> and
  \<open>Math.random().toString(36).substr(2, 9)\<close>, as strings.
\<close>

datatype parsed = Throws js_error | Value jsval

record request =
  httpMethod :: jsstring
  reqBody :: parsed
  dateNow :: jsstring
  randomPart :: jsstring

record response =
  statusCode :: nat
  headers :: "(jsstring \<times> jsstring) list"
  json :: "(jsstring \<times> jsval) list option"

definition requiredFields :: "jsstring list" where
  "requiredFields = [ascii ''name'', ascii ''email'', ascii ''courseInterest'']"

fun filterMissing :: "jsval \<Rightarrow> jsstring list \<Rightarrow> js_error + jsstring list" where
  "filterMissing formData [] = Inr []"
| "filterMissing formData (k # ks) =
     (case getProp formData k of
        Inl e \<Rightarrow> Inl e
      | Inr v \<Rightarrow>
         (case filterMissing formData ks of
            Inl e \<Rightarrow> Inl e
          | Inr rest \<Rightarrow> Inr (if \<not> truthy v then k # rest else rest)))"

definition msgMethodNotAllowed :: jsstring where
  "msgMethodNotAllowed = ascii ''Method not allowed''"

definition msgMissingFields :: jsstring where
  "msgMissingFields = ascii ''Fehlende Pflichtfelder''"

definition msgBadEmail :: jsstring where
  "msgBadEmail = ascii ''Ung'' @ [0xFC] @ ascii ''ltige E-Mail-Adresse''"

definition msgSpam :: jsstring where
  "msgSpam = ascii ''Spam detected''"

definition msgThanks :: jsstring where
  "msgThanks = ascii ''Vielen Dank f'' @ [0xFC]
     @ ascii ''r Ihre Anfrage! Wir werden uns bald bei Ihnen melden.''"

definition msgServerError :: jsstring where
  "msgServerError = ascii ''Interner Serverfehler. Bitte versuchen Sie es sp'' @ [0xE4]
     @ ascii ''ter erneut.''"

definition leadId :: "request \<Rightarrow> jsstring" where
  "leadId r = ascii ''lead_'' @ dateNow r @ ascii ''_'' @ randomPart r"

definition errorBody :: "jsstring \<Rightarrow> (jsstring \<times> jsval) list" where
  "errorBody m = [(ascii ''error'', JStr m)]"

definition successBody :: "request \<Rightarrow> (jsstring \<times> jsval) list" where
  "successBody r =
     [(ascii ''success'', JBool True), (ascii ''message'', JStr msgThanks),
      (ascii ''leadId'', JStr (leadId r))]"

text \<open>
  The body of the \<open>try\<close> block, which is the same text in both handlers but for the
  headers of the success response.
\<close>

definition formChecks ::
  "request \<Rightarrow> (jsstring \<times> jsstring) list \<Rightarrow> js_error + response" where
  "formChecks r okHeaders =
     (case reqBody r of
        Throws e \<Rightarrow> Inl e
      | Value formData \<Rightarrow>
         (case filterMissing formData requiredFields of
            Inl e \<Rightarrow> Inl e
          | Inr missingFields \<Rightarrow>
             if length missingFields > 0 then
               Inr \<lparr>statusCode = 400, headers = [],
                    json = Some [(ascii ''error'', JStr msgMissingFields),
                                 (ascii ''missingFields'', JArr (map JStr missingFields))]\<rparr>
             else
               (case getProp formData (ascii ''email'') of
                  Inl e \<Rightarrow> Inl e
                | Inr email \<Rightarrow>
                   (case toStringJS email of
                      Inl e \<Rightarrow> Inl e
                    | Inr s \<Rightarrow>
                       if \<not> test emailRegex s then
                         Inr \<lparr>statusCode = 400, headers = [], json = Some (errorBody msgBadEmail)\<rparr>
                       else
                         (case getProp formData (ascii ''website'') of
                            Inl e \<Rightarrow> Inl e
                          | Inr website \<Rightarrow>
                             if truthy website then
                               Inr \<lparr>statusCode = 400, headers = [],
                                    json = Some (errorBody msgSpam)\<rparr>
                             else
                               Inr \<lparr>statusCode = 200, headers = okHeaders,
                                    json = Some (successBody r)\<rparr>)))))"

definition netlifyHandler :: "request \<Rightarrow> response" where
  "netlifyHandler event =
     (if httpMethod event \<noteq> ascii ''POST'' then
        \<lparr>statusCode = 405, headers = [], json = Some (errorBody msgMethodNotAllowed)\<rparr>
      else
        (case formChecks event
                [(ascii ''Content-Type'', ascii ''application/json''),
                 (ascii ''Access-Control-Allow-Origin'', ascii ''*'')] of
           Inr res \<Rightarrow> res
         | Inl error \<Rightarrow>
             \<lparr>statusCode = 500, headers = [], json = Some (errorBody msgServerError)\<rparr>))"

definition corsHeaders :: "(jsstring \<times> jsstring) list" where
  "corsHeaders =
     [(ascii ''Access-Control-Allow-Credentials'', ascii ''true''),
      (ascii ''Access-Control-Allow-Origin'', ascii ''*''),
      (ascii ''Access-Control-Allow-Methods'', ascii ''GET,OPTIONS,PATCH,DELETE,POST,PUT''),
      (ascii ''Access-Control-Allow-Headers'',
       ascii ''X-CSRF-Token, X-Requested-With, Accept, Accept-Version, Content-Length, Content-MD5, Content-Type, Date, X-Api-Version'')]"

definition vercelHandler :: "request \<Rightarrow> response" where
  "vercelHandler req =
     (if httpMethod req = ascii ''OPTIONS'' then
        \<lparr>statusCode = 200, headers = corsHeaders, json = None\<rparr>
      else if httpMethod req \<noteq> ascii ''POST'' then
        \<lparr>statusCode = 405, headers = corsHeaders, json = Some (errorBody msgMethodNotAllowed)\<rparr>
      else
        (case formChecks req [] of
           Inr res \<Rightarrow> res\<lparr>headers := corsHeaders\<rparr>
         | Inl error \<Rightarrow>
             \<lparr>statusCode = 500, headers = corsHeaders, json = Some (errorBody msgServerError)\<rparr>))"

section \<open>Languages of patterns\<close>

text \<open>The set of strings a pattern stands for, to state what \<open>test\<close> decides.\<close>

definition conc :: "jsstring set \<Rightarrow> jsstring set \<Rightarrow> jsstring set" where
  "conc A B = {u @ v |u v. u \<in> A \<and> v \<in> B}"

inductive_set star :: "jsstring set \<Rightarrow> jsstring set" for A :: "jsstring set" where
  star_nil: "[] \<in> star A"
| star_app: "u \<in> A \<Longrightarrow> v \<in> star A \<Longrightarrow> u @ v \<in> star A"

fun lang :: "regex \<Rightarrow> jsstring set" where
  "lang Nothing = {}"
| "lang Eps = {[]}"
| "lang (Cls items) = {[c] |c. in_class items c}"
| "lang (NCls items) = {[c] |c. \<not> in_class items c}"
| "lang (Then r s) = conc (lang r) (lang s)"
| "lang (Alt r s) = lang r \<union> lang s"
| "lang (Star r) = star (lang r)"

section \<open>Notions of the specification and an example form\<close>

definition control :: "kind \<Rightarrow> jsstring \<Rightarrow> jsstring \<Rightarrow> bool \<Rightarrow> bool \<Rightarrow> element" where
  "control k nm v req chk =
     \<lparr>kind = k, classList = [], name = nm, fieldValue = v, checked = chk, required = req,
      defaultValue = [], defaultChecked = False, disabled = False, innerHTML = Html []\<rparr>"

definition box :: "nat \<Rightarrow> dom list \<Rightarrow> dom" where
  "box i ks = Elem i (newDiv [] (Html [])) ks"

definition demoDoc :: "jsstring \<Rightarrow> jsstring \<Rightarrow> jsstring \<Rightarrow> jsstring \<Rightarrow> jsstring \<Rightarrow> bool \<Rightarrow> dom" where
  "demoDoc nameV emailV phoneV courseV messageV consent =
     Elem 0 (newDiv [] (Html []))
       [box 1 [Elem 2 (control (Input (ascii ''text'')) (ascii ''name'') nameV True False) []],
        box 3 [Elem 4 (control (Input (ascii ''email'')) (ascii ''email'') emailV True False) []],
        box 5 [Elem 6 (control (Input (ascii ''tel'')) (ascii ''phone'') phoneV False False) []],
        box 7 [Elem 8 (control (Select False) (ascii ''course'') courseV True False) []],
        box 9 [Elem 10 (control Textarea (ascii ''message'') messageV True False) []],
        box 11 [Elem 12 (control (Input (ascii ''checkbox'')) (ascii ''privacy'') (ascii ''on'')
                          True consent) []],
        Elem 13 (control (Button (Some (ascii ''submit''))) [] [] False False) []]"

definition demoPage :: "jsstring \<Rightarrow> jsstring \<Rightarrow> jsstring \<Rightarrow> jsstring \<Rightarrow> jsstring \<Rightarrow> bool \<Rightarrow> page" where
  "demoPage nameV emailV phoneV courseV messageV consent =
     \<lparr>doc = demoDoc nameV emailV phoneV courseV messageV consent, next_id = 14, now = 0,
      timers = []\<rparr>"

definition isNameLetter :: "jschar \<Rightarrow> bool" where
  "isNameLetter c \<longleftrightarrow> (0x61 \<le> c \<and> c \<le> 0x7A) \<or> (0x41 \<le> c \<and> c \<le> 0x5A) \<or>
     c \<in> {0xE4, 0xF6, 0xFC, 0xC4, 0xD6, 0xDC, 0xDF}"

definition isNameChar :: "jschar \<Rightarrow> bool" where
  "isNameChar c \<longleftrightarrow> isNameLetter c \<or> isWhiteSpace c \<or> c = 0x2D \<or> c = 0x2E"

definition twoLetterName :: "jsstring \<Rightarrow> bool" where
  "twoLetterName v \<longleftrightarrow> 2 \<le> length (filter isNameLetter v) \<and> list_all isNameChar v"

definition isPhoneChar :: "jschar \<Rightarrow> bool" where
  "isPhoneChar c \<longleftrightarrow> (0x30 \<le> c \<and> c \<le> 0x39) \<or> isWhiteSpace c \<or> c \<in> {0x2D, 0x28, 0x29, 0x2E}"

text \<open>
  The phone shape in the words of the specification: an optional leading \<open>+\<close>, followed
  only by digits, spaces, hyphens, parentheses and dots, with a minimum of 8 characters.
\<close>

definition isStatedPhoneChar :: "jschar \<Rightarrow> bool" where
  "isStatedPhoneChar c \<longleftrightarrow> (0x30 \<le> c \<and> c \<le> 0x39) \<or> c \<in> {0x20, 0x2D, 0x28, 0x29, 0x2E}"

definition internationalPhoneShape :: "jsstring \<Rightarrow> bool" where
  "internationalPhoneShape v \<longleftrightarrow>
     8 \<le> length v \<and> list_all isStatedPhoneChar (if take 1 v = [0x2B] then drop 1 v else v)"

definition domainPart :: "jsstring \<Rightarrow> jsstring" where
  "domainPart v = drop 1 (dropWhile (\<lambda>c. c \<noteq> 0x40) v)"

text \<open>The value of a field of the request body, and the required fields that are missing.\<close>

definition bodyField :: "jsval \<Rightarrow> jsstring \<Rightarrow> jsval" where
  "bodyField formData k =
     (case formData of JObj kvs \<Rightarrow> (case map_of kvs k of None \<Rightarrow> JUndefined | Some v \<Rightarrow> v)
      | _ \<Rightarrow> JUndefined)"

definition missingOf :: "jsval \<Rightarrow> jsstring list" where
  "missingOf formData = filter (\<lambda>k. \<not> truthy (bodyField formData k)) requiredFields"

definition demoRequest :: "jsstring \<Rightarrow> parsed \<Rightarrow> request" where
  "demoRequest m b = \<lparr>httpMethod = m, reqBody = b, dateNow = ascii ''1700000000000'', randomPart = ascii ''k3j9x0a1b''\<rparr>"

definition demoBody :: "jsval \<Rightarrow> jsval \<Rightarrow> jsval" where
  "demoBody email website =
     JObj [(ascii ''name'', JStr (ascii ''Anna Muster'')), (ascii ''email'', email),
           (ascii ''courseInterest'', JStr (ascii ''PPL'')), (ascii ''website'', website)]"

section \<open>Notions for the form controller\<close>

definition allNodes :: "(nat \<Rightarrow> element \<Rightarrow> bool) \<Rightarrow> dom \<Rightarrow> bool" where
  "allNodes R d \<longleftrightarrow> (\<forall>n\<in>set (nodes d). R (nid n) (el n))"

definition below :: "(nat \<Rightarrow> element \<Rightarrow> bool) \<Rightarrow> dom \<Rightarrow> bool" where
  "below R d \<longleftrightarrow> (\<forall>n\<in>set (descendants d). R (nid n) (el n))"

definition cnt :: "(nat \<Rightarrow> element \<Rightarrow> bool) \<Rightarrow> dom \<Rightarrow> nat" where
  "cnt R d = length (filter (\<lambda>n. R (nid n) (el n)) (nodes d))"

definition fieldClosed :: "(dom \<Rightarrow> nat \<Rightarrow> bool) \<Rightarrow> bool" where
  "fieldClosed Inv \<longleftrightarrow>
     (\<forall>d nx f. Inv d nx \<longrightarrow>
        Inv (modify f (classList_remove [ascii ''error'', ascii ''border-red-500'']) d) nx \<and>
        Inv (modify f (classList_add [ascii ''error'', ascii ''border-red-500'']) d) nx)
   \<and> (\<forall>d nx x. Inv d nx \<and> x \<in> set (nodes d) \<and> hasClass (ascii ''error-message'') (el x) \<longrightarrow>
        Inv (removeNode (nid x) d) nx)
   \<and> (\<forall>d nx p msg. Inv d nx \<longrightarrow>
        Inv (appendChild p (Elem nx (newDiv errorMessageClasses (FieldError msg)) []) d) (Suc nx))"

definition fired :: "event \<Rightarrow> page \<Rightarrow> task option" where
  "fired ev s = (case ev of Fire \<Rightarrow> map_option snd (find (\<lambda>(t, k). t \<le> now s) (timers s))
                          | _ \<Rightarrow> None)"

definition editClosed :: "(dom \<Rightarrow> nat \<Rightarrow> bool) \<Rightarrow> bool" where
  "editClosed Inv \<longleftrightarrow>
     (\<forall>d nx f v c. Inv d nx \<longrightarrow> Inv (modify f (\<lambda>e. e\<lparr>fieldValue := v, checked := c\<rparr>) d) nx)
   \<and> (\<forall>d nx b. Inv d nx \<longrightarrow>
         Inv (modify b (\<lambda>e. e\<lparr>disabled := True, innerHTML := SpinnerLabel\<rparr>) d) nx)"

definition removalClosed :: "nat set \<Rightarrow> (dom \<Rightarrow> nat \<Rightarrow> bool) \<Rightarrow> bool" where
  "removalClosed M Inv \<longleftrightarrow> (\<forall>d nx x. Inv d nx \<and> x \<notin> M \<longrightarrow> Inv (removeNode x d) nx)"

definition successClosed :: "(dom \<Rightarrow> nat \<Rightarrow> bool) \<Rightarrow> bool" where
  "successClosed Inv \<longleftrightarrow>
     (\<forall>s b L. Inv (doc s) (next_id s) \<longrightarrow>
        Inv (doc (handleFormSuccess (form s) b L s)) (next_id (handleFormSuccess (form s) b L s)))"

definition isErrorBanner :: "element \<Rightarrow> bool" where
  "isErrorBanner e \<longleftrightarrow> hasClass (ascii ''form-message'') e \<and> hasClass (ascii ''bg-red-50'') e"

definition noErrorBanner :: "page \<Rightarrow> bool" where
  "noErrorBanner s \<longleftrightarrow> (\<forall>n\<in>set (nodes (doc s)). \<not> isErrorBanner (el n))"

definition timersAhead :: "page \<Rightarrow> bool" where
  "timersAhead s \<longleftrightarrow> list_all (\<lambda>(t, k). now s \<le> t) (timers s)"

definition formMessages :: "page \<Rightarrow> nat list" where
  "formMessages s = querySelectorAll (hasClass (ascii ''form-message'')) (form s) (doc s)"

definition wellFormed :: "page \<Rightarrow> bool" where
  "wellFormed s \<longleftrightarrow>
     distinct (map nid (nodes (doc s))) \<and> (\<forall>n\<in>set (nodes (doc s)). nid n < next_id s)"

definition dcnt :: "(nat \<Rightarrow> element \<Rightarrow> bool) \<Rightarrow> dom \<Rightarrow> nat" where
  "dcnt R d = sum_list (map (cnt R) (kids d))"

definition tidy :: "dom \<Rightarrow> nat \<Rightarrow> bool" where
  "tidy d nx \<longleftrightarrow>
     (\<forall>i. cnt (\<lambda>j e. j = i) d \<le> 1) \<and> allNodes (\<lambda>i e. i < nx) d \<and>
     dcnt (\<lambda>i. hasClass (ascii ''form-message'')) d \<le> 1"

definition miniPage :: "bool \<Rightarrow> page" where
  "miniPage consent =
     \<lparr>doc = Elem 0 (newDiv [] (Html []))
        [box 1 [Elem 2 (control (Input (ascii ''text'')) (ascii ''note'') [] False False) []],
         box 3 [Elem 4 (control (Input (ascii ''checkbox'')) (ascii ''privacy'') (ascii ''on'') True consent) []],
         Elem 5 (control (Button (Some (ascii ''submit''))) [] [] False False) []],
      next_id = 6, now = 0, timers = []\<rparr>"

text \<open>The error messages shown below the element \<open>p\<close>, in document order.\<close>

definition errorMessagesIn :: "nat \<Rightarrow> page \<Rightarrow> nat list" where
  "errorMessagesIn p s = querySelectorAll (hasClass (ascii ''error-message'')) p (doc s)"

text \<open>A form in which the checkbox 4 and the container 2 of the text field 3 share the
  parent 1.\<close>

definition nestedPage :: page where
  "nestedPage =
     \<lparr>doc = Elem 0 (newDiv [] (Html []))
        [box 1 [box 2 [Elem 3 (control (Input (ascii ''text'')) (ascii ''name'') [] True False) []],
                Elem 4 (control (Input (ascii ''checkbox'')) (ascii ''privacy'') (ascii ''on'')
                          True False) []],
         Elem 5 (control (Button (Some (ascii ''submit''))) [] [] False False) []],
      next_id = 6, now = 0, timers = []\<rparr>"

text \<open>The callbacks that run along a sequence of events, in the order in which they run.\<close>

fun firedAlong :: "event list \<Rightarrow> page \<Rightarrow> task list" where
  "firedAlong [] s = []"
| "firedAlong (ev # evs) s =
     (case step ev s of
        None \<Rightarrow> []
      | Some s1 \<Rightarrow> (case fired ev s of None \<Rightarrow> [] | Some k \<Rightarrow> [k]) @ firedAlong evs s1)"

text \<open>A callback leaves the submit control alone when it removes a message, and a message
  \<open>m\<close> alone when it removes another one.\<close>

fun removesOther :: "nat set \<Rightarrow> task \<Rightarrow> bool" where
  "removesOther M (RemoveMessage m) = (m \<notin> M)"
| "removesOther M (CallHandleFormSuccess b L) = False"

text \<open>The message \<open>m\<close> is a child of the form, on a page with distinct identities.\<close>

definition bannerKept :: "nat \<Rightarrow> dom \<Rightarrow> nat \<Rightarrow> bool" where
  "bannerKept m d nx \<longleftrightarrow>
     tidy d nx \<and>
     (\<exists>n\<in>set (kids d). nid n = m \<and> hasClass (ascii ''form-message'') (el n) \<and>
        \<not> hasClass (ascii ''error-message'') (el n))"

definition first_message :: "nat \<Rightarrow> dom \<Rightarrow> bool" where
  "first_message m d \<longleftrightarrow> (\<exists>e ks. kids d = Elem m e [] # ks \<and> classList e = successClasses)"

text \<open>Every message that a pending callback is going to remove has been created.\<close>

fun messageBelow :: "nat \<Rightarrow> task \<Rightarrow> bool" where
  "messageBelow nx (RemoveMessage m) = (m < nx)"
| "messageBelow nx (CallHandleFormSuccess b L) = True"

definition timersFresh :: "page \<Rightarrow> bool" where
  "timersFresh s \<longleftrightarrow> list_all (\<lambda>(t, k). messageBelow (next_id s) k) (timers s)"

text \<open>The removal of the message \<open>m\<close> is pending, due at \<open>t8\<close> and at no other time.\<close>

definition timerKept :: "nat \<Rightarrow> nat \<Rightarrow> page \<Rightarrow> bool" where
  "timerKept m t8 s \<longleftrightarrow>
     (t8, RemoveMessage m) \<in> set (timers s) \<and>
     list_all (\<lambda>(t, k). k = RemoveMessage m \<longrightarrow> t = t8) (timers s)"

text \<open>A small form that is filled in: a note, the consent box ticked, and the submit button.\<close>

definition filledPage :: page where
  "filledPage =
     \<lparr>doc = Elem 0 (newDiv [] (Html []))
        [box 1 [Elem 2 (control (Input (ascii ''text'')) (ascii ''note'') (ascii ''hello'') False False) []],
         box 3 [Elem 4 (control (Input (ascii ''checkbox'')) (ascii ''privacy'') (ascii ''on'') True True) []],
         Elem 5 (control (Button (Some (ascii ''submit''))) [] [] False False) []],
      next_id = 6, now = 0, timers = []\<rparr>"

section \<open>Matching by derivatives decides the language\<close>

lemma nullable_lang: "nullable r \<longleftrightarrow> [] \<in> lang r"
  by (induction r) (auto simp: conc_def star_nil)

lemma conc_Cons:
  "c # s \<in> conc A B \<longleftrightarrow>
     (\<exists>u v. s = u @ v \<and> c # u \<in> A \<and> v \<in> B) \<or> ([] \<in> A \<and> c # s \<in> B)"
  by (auto simp: conc_def Cons_eq_append_conv)

lemma star_Cons_split:
  assumes "x \<in> star A" and "x = c # s"
  shows "\<exists>u v. s = u @ v \<and> c # u \<in> A \<and> v \<in> star A"
  using assms
proof (induction rule: star.induct)
  case star_nil
  then show ?case by simp
next
  case (star_app u v)
  show ?case
  proof (cases u)
    case Nil
    with star_app show ?thesis by simp
  next
    case (Cons a u')
    with star_app.prems have "a = c" and "s = u' @ v" by simp_all
    with Cons star_app.hyps show ?thesis by blast
  qed
qed

lemma star_Cons:
  "c # s \<in> star A \<longleftrightarrow> (\<exists>u v. s = u @ v \<and> c # u \<in> A \<and> v \<in> star A)"
proof
  assume "c # s \<in> star A"
  then show "\<exists>u v. s = u @ v \<and> c # u \<in> A \<and> v \<in> star A"
    by (rule star_Cons_split) simp
next
  assume "\<exists>u v. s = u @ v \<and> c # u \<in> A \<and> v \<in> star A"
  then obtain u v where "s = u @ v" "c # u \<in> A" "v \<in> star A" by blast
  then show "c # s \<in> star A"
    using star_app [of "c # u" A v] by simp
qed

lemma deriv_lang: "s \<in> lang (deriv c r) \<longleftrightarrow> c # s \<in> lang r"
proof (induction r arbitrary: s)
  case (Then r1 r2)
  then show ?case
    by (auto simp: conc_Cons nullable_lang) (auto simp: conc_def)
next
  case (Star r)
  then show ?case
    by (auto simp: star_Cons conc_def)
qed auto

lemma test_lang: "test r s \<longleftrightarrow> s \<in> lang r"
  by (induction s arbitrary: r) (simp_all add: nullable_lang deriv_lang)

lemma star_chars:
  "s \<in> star {[c] |c. P c} \<longleftrightarrow> (\<forall>c\<in>set s. P c)"
proof (induction s)
  case Nil
  show ?case by (simp add: star_nil)
next
  case (Cons a s)
  show ?case by (auto simp: star_Cons Cons)
qed

lemma lang_at_least_chars:
  assumes "lang r = {[c] |c. P c}"
  shows "s \<in> lang (at_least n r) \<longleftrightarrow> n \<le> length s \<and> (\<forall>c\<in>set s. P c)"
proof (induction n arbitrary: s)
  case 0
  show ?case by (simp add: assms star_chars)
next
  case (Suc n)
  show ?case
  proof (cases s)
    case Nil
    then show ?thesis by (simp add: assms conc_def)
  next
    case (Cons a s')
    then show ?thesis by (auto simp: assms conc_Cons Suc)
  qed
qed

lemma test_at_least_Cls:
  "test (at_least n (Cls items)) s \<longleftrightarrow> n \<le> length s \<and> (\<forall>c\<in>set s. in_class items c)"
  by (simp add: test_lang lang_at_least_chars [where P = "in_class items"])

lemma test_nameRegex:
  "test nameRegex v \<longleftrightarrow>
     2 \<le> length v \<and>
     (\<forall>c\<in>set v. (0x61 \<le> c \<and> c \<le> 0x7A) \<or> (0x41 \<le> c \<and> c \<le> 0x5A) \<or>
        c \<in> {0xE4, 0xF6, 0xFC, 0xC4, 0xD6, 0xDC, 0xDF} \<or> isWhiteSpace c \<or> c = 0x2D \<or> c = 0x2E)"
  unfolding nameRegex_def test_at_least_Cls by (simp add: in_class_def)

lemma conc_optional_char:
  "v \<in> conc ({[a]} \<union> {[]}) B \<longleftrightarrow> (\<exists>b. (v = b \<or> v = a # b) \<and> b \<in> B)"
proof
  assume "v \<in> conc ({[a]} \<union> {[]}) B"
  then show "\<exists>b. (v = b \<or> v = a # b) \<and> b \<in> B"
    by (auto simp: conc_def)
next
  assume "\<exists>b. (v = b \<or> v = a # b) \<and> b \<in> B"
  then obtain b where b: "v = b \<or> v = a # b" "b \<in> B" by blast
  from b(1) show "v \<in> conc ({[a]} \<union> {[]}) B"
  proof
    assume "v = b"
    then have "v = [] @ b" by simp
    with b(2) show ?thesis unfolding conc_def by blast
  next
    assume "v = a # b"
    then have "v = [a] @ b" by simp
    with b(2) show ?thesis unfolding conc_def by blast
  qed
qed

lemma test_phoneRegex:
  "test phoneRegex v \<longleftrightarrow>
     (\<exists>body. (v = body \<or> v = 0x2B # body) \<and> 8 \<le> length body \<and>
        (\<forall>c\<in>set body. (0x30 \<le> c \<and> c \<le> 0x39) \<or> isWhiteSpace c \<or> c \<in> {0x2D, 0x28, 0x29, 0x2E}))"
proof -
  let ?items = "[Range 0x30 0x39, WhiteSpaceEsc, Ch 0x2D, Ch 0x28, Ch 0x29, Ch 0x2E]"
  have cls: "lang (Cls ?items) = {[c] |c. in_class ?items c}" by simp
  have body: "s \<in> lang (at_least 8 (Cls ?items)) \<longleftrightarrow>
      8 \<le> length s \<and> (\<forall>c\<in>set s. (0x30 \<le> c \<and> c \<le> 0x39) \<or> isWhiteSpace c \<or> c \<in> {0x2D, 0x28, 0x29, 0x2E})" for s
    unfolding lang_at_least_chars [OF cls] by (simp add: in_class_def)
  have opt: "lang (optional (Cls [Ch 0x2B])) = {[0x2B]} \<union> {[]}"
    by (auto simp: optional_def in_class_def)
  have "v \<in> lang phoneRegex \<longleftrightarrow>
      (\<exists>b. (v = b \<or> v = 0x2B # b) \<and> b \<in> lang (at_least 8 (Cls ?items)))"
    unfolding phoneRegex_def lang.simps(5) opt conc_optional_char ..
  then show ?thesis
    unfolding test_lang body .
qed

lemma test_emailRegex:
  "test emailRegex v \<longleftrightarrow>
     (\<exists>l d t. v = l @ [0x40] @ d @ [0x2E] @ t \<and> l \<noteq> [] \<and> d \<noteq> [] \<and> t \<noteq> [] \<and>
        (\<forall>c\<in>set (l @ d @ t). \<not> isWhiteSpace c \<and> c \<noteq> 0x40))"
proof -
  let ?items = "[WhiteSpaceEsc, Ch 0x40]"
  let ?part = "lang (at_least 1 (NCls ?items))"
  have ncls: "lang (NCls ?items) = {[c] |c. \<not> in_class ?items c}" by simp
  have part: "s \<in> ?part \<longleftrightarrow> s \<noteq> [] \<and> (\<forall>c\<in>set s. \<not> isWhiteSpace c \<and> c \<noteq> 0x40)" for s
    unfolding lang_at_least_chars [OF ncls] by (cases s) (auto simp: in_class_def)
  have at: "lang (Cls [Ch 0x40]) = {[0x40]}" and dot: "lang (Cls [Ch 0x2E]) = {[0x2E]}"
    by (auto simp: in_class_def)
  have "v \<in> lang emailRegex \<longleftrightarrow>
      (\<exists>l d t. v = l @ [0x40] @ d @ [0x2E] @ t \<and> l \<in> ?part \<and> d \<in> ?part \<and> t \<in> ?part)"
    unfolding emailRegex_def lang.simps(5) at dot conc_def by blast
  also have "\<dots> \<longleftrightarrow>
      (\<exists>l d t. v = l @ [0x40] @ d @ [0x2E] @ t \<and> l \<noteq> [] \<and> d \<noteq> [] \<and> t \<noteq> [] \<and>
        (\<forall>c\<in>set (l @ d @ t). \<not> isWhiteSpace c \<and> c \<noteq> 0x40))"
    unfolding part set_append ball_Un by (intro iff_exI) blast
  finally show ?thesis
    unfolding test_lang .
qed

section \<open>Auxiliary facts\<close>

lemma trim_whitespace_only:
  assumes "\<forall>c\<in>set v. isWhiteSpace c"
  shows "trim v = []"
proof -
  have dw: "dropWhile isWhiteSpace v = []" using assms by simp
  show ?thesis unfolding trim_def dw by simp
qed

lemma trimmedValue_whitespace_only: "\<forall>c\<in>set (fieldValue e). isWhiteSpace c \<Longrightarrow> trimmedValue e = []"
  by (simp add: trimmedValue_def trim_whitespace_only)

lemma required_msgs_distinct:
  "msgNameRequired \<noteq> msgRequired" "msgEmailRequired \<noteq> msgRequired" "msgMessageRequired \<noteq> msgRequired"
  by (simp_all add: msgNameRequired_def msgRequired_def msgEmailRequired_def msgMessageRequired_def ascii_def)

lemma type_names_distinct:
  "ascii ''email'' \<noteq> ascii ''checkbox''" "ascii ''tel'' \<noteq> ascii ''checkbox''"
  "ascii ''text'' \<noteq> ascii ''checkbox''" "ascii ''textarea'' \<noteq> ascii ''checkbox''"
  "ascii ''tel'' \<noteq> ascii ''email''" "ascii ''text'' \<noteq> ascii ''email''" "ascii ''textarea'' \<noteq> ascii ''email''"
  "ascii ''text'' \<noteq> ascii ''tel''" "ascii ''textarea'' \<noteq> ascii ''tel''"
  "ascii ''textarea'' \<noteq> ascii ''text''"
  by (simp_all add: ascii_def)

lemma typed_input_is_no_textarea:
  assumes "typeProp k = ascii ''email'' \<or> typeProp k = ascii ''tel'' \<or> typeProp k = ascii ''text''"
  shows "toLowerCase (tagName k) \<noteq> ascii ''textarea''"
proof (cases k)
  case (Input t)
  then show ?thesis by (simp add: toLowerCase_def ascii_def)
next
  case Textarea
  with assms show ?thesis by (simp add: ascii_def)
next
  case (Select m)
  then show ?thesis by (simp add: toLowerCase_def ascii_def)
next
  case (Button t)
  then show ?thesis by (simp add: toLowerCase_def ascii_def)
next
  case (Other tag)
  with assms show ?thesis by (simp add: ascii_def)
qed

lemma checkField_nonempty:
  assumes "trimmedValue e = v" and "v \<noteq> []" and "typeProp (kind e) \<noteq> ascii ''checkbox''"
  shows "checkField e = lengthCheck e v (typeCheck e v (True, []))"
  using assms by (simp add: checkField_def presenceCheck_def)

lemma domainPart_of_email:
  assumes "\<forall>c\<in>set l. c \<noteq> 0x40"
  shows "domainPart (l @ [0x40] @ d) = d"
  using assms by (simp add: domainPart_def dropWhile_append3 dropWhile_append)

lemma trim_replicate: "\<not> isWhiteSpace c \<Longrightarrow> trim (replicate k c) = replicate k c"
  by (simp add: trim_def)

lemma demo_getNode:
  "getNode 2 (demoDoc a b c k d e) =
     Some (Elem 2 (control (Input (ascii ''text'')) (ascii ''name'') a True False) [])"
  "getNode 4 (demoDoc a b c k d e) =
     Some (Elem 4 (control (Input (ascii ''email'')) (ascii ''email'') b True False) [])"
  "getNode 6 (demoDoc a b c k d e) =
     Some (Elem 6 (control (Input (ascii ''tel'')) (ascii ''phone'') c False False) [])"
  "getNode 8 (demoDoc a b c k d e) =
     Some (Elem 8 (control (Select False) (ascii ''course'') k True False) [])"
  "getNode 10 (demoDoc a b c k d e) =
     Some (Elem 10 (control Textarea (ascii ''message'') d True False) [])"
  "getNode 12 (demoDoc a b c k d e) =
     Some (Elem 12 (control (Input (ascii ''checkbox'')) (ascii ''privacy'') (ascii ''on'') True e) [])"
  by (simp_all add: getNode_def demoDoc_def box_def)

lemma demo_parentNode:
  "parentNode 2 (demoDoc a b c k d e) = Some 1"
  "parentNode 4 (demoDoc a b c k d e) = Some 3"
  "parentNode 6 (demoDoc a b c k d e) = Some 5"
  "parentNode 8 (demoDoc a b c k d e) = Some 7"
  "parentNode 10 (demoDoc a b c k d e) = Some 9"
  "parentNode 12 (demoDoc a b c k d e) = Some 11"
  by (simp_all add: parentNode_def demoDoc_def box_def)

lemmas demo_simps = demoPage_def demo_getNode demo_parentNode control_def

lemma getProp_bodyField:
  "formData \<noteq> JUndefined \<Longrightarrow> formData \<noteq> JNull \<Longrightarrow> getProp formData k = Inr (bodyField formData k)"
  by (cases formData) (simp_all add: bodyField_def)

lemma filterMissing_filter:
  assumes "formData \<noteq> JUndefined" and "formData \<noteq> JNull"
  shows "filterMissing formData ks = Inr (filter (\<lambda>k. \<not> truthy (bodyField formData k)) ks)"
  by (induction ks) (simp_all add: getProp_bodyField [OF assms])

lemma filterMissing_throws:
  "formData = JUndefined \<or> formData = JNull \<Longrightarrow> filterMissing formData requiredFields = Inl TypeError"
  by (auto simp: requiredFields_def)

lemma formChecks_value:
  assumes "reqBody r = Value formData" and "formData \<noteq> JUndefined" and "formData \<noteq> JNull"
  shows "formChecks r hs =
     (if missingOf formData \<noteq> [] then
        Inr \<lparr>statusCode = 400, headers = [],
             json = Some [(ascii ''error'', JStr msgMissingFields),
                          (ascii ''missingFields'', JArr (map JStr (missingOf formData)))]\<rparr>
      else (case toStringJS (bodyField formData (ascii ''email'')) of
              Inl e \<Rightarrow> Inl e
            | Inr s \<Rightarrow>
               if \<not> test emailRegex s then
                 Inr \<lparr>statusCode = 400, headers = [], json = Some (errorBody msgBadEmail)\<rparr>
               else if truthy (bodyField formData (ascii ''website'')) then
                 Inr \<lparr>statusCode = 400, headers = [], json = Some (errorBody msgSpam)\<rparr>
               else Inr \<lparr>statusCode = 200, headers = hs, json = Some (successBody r)\<rparr>))"
  using assms
  by (simp add: formChecks_def filterMissing_filter getProp_bodyField missingOf_def
      split: sum.splits)

lemma formChecks_throws:
  assumes "reqBody r = Throws e \<or> reqBody r = Value JUndefined \<or> reqBody r = Value JNull"
  shows "\<exists>e'. formChecks r hs = Inl e'"
  using assms by (auto simp: formChecks_def requiredFields_def)

lemma handler_post:
  assumes "h = netlifyHandler \<or> h = vercelHandler" and "httpMethod r = ascii ''POST''"
  shows "\<exists>hs. statusCode (h r) = (case formChecks r hs of Inl err \<Rightarrow> 500 | Inr res \<Rightarrow> statusCode res)
            \<and> json (h r) = (case formChecks r hs of Inl err \<Rightarrow> Some (errorBody msgServerError)
                                                  | Inr res \<Rightarrow> json res)"
proof -
  have opt: "ascii ''POST'' \<noteq> ascii ''OPTIONS''" by (simp add: ascii_def)
  from assms(1) show ?thesis
  proof
    assume "h = netlifyHandler"
    then have "statusCode (h r) =
        (case formChecks r [(ascii ''Content-Type'', ascii ''application/json''),
                 (ascii ''Access-Control-Allow-Origin'', ascii ''*'')] of
           Inl err \<Rightarrow> 500 | Inr res \<Rightarrow> statusCode res)
      \<and> json (h r) =
        (case formChecks r [(ascii ''Content-Type'', ascii ''application/json''),
                 (ascii ''Access-Control-Allow-Origin'', ascii ''*'')] of
           Inl err \<Rightarrow> Some (errorBody msgServerError) | Inr res \<Rightarrow> json res)"
      using assms(2) by (simp add: netlifyHandler_def split: sum.splits)
    then show ?thesis ..
  next
    assume "h = vercelHandler"
    then have "statusCode (h r) = (case formChecks r [] of Inl err \<Rightarrow> 500 | Inr res \<Rightarrow> statusCode res)
            \<and> json (h r) = (case formChecks r [] of Inl err \<Rightarrow> Some (errorBody msgServerError)
                                                  | Inr res \<Rightarrow> json res)"
      using assms(2) by (simp add: vercelHandler_def opt split: sum.splits)
    then show ?thesis ..
  qed
qed

lemma demoRequest_sel:
  "httpMethod (demoRequest m b) = m" "reqBody (demoRequest m b) = b"
  by (simp_all add: demoRequest_def)

lemma method_names:
  "ascii ''GET'' \<noteq> ascii ''POST''" "ascii ''OPTIONS'' \<noteq> ascii ''POST''"
  by (simp_all add: ascii_def)

section \<open>The field validator\<close>

text \<open>
  Claim C8. A required field that is not a checkbox and whose value is empty, or consists of
  white space only, is invalid: \<open>validateField\<close> returns \<open>false\<close> and shows the message for
  the field's name, a bespoke one for \<open>name\<close>, \<open>email\<close> and \<open>message\<close> and the generic
  "Dieses Feld ist erforderlich." for every other name.
\<close>

theorem required_empty_is_invalid:
  assumes "getNode f (doc s) = Some n" and "parentNode f (doc s) = Some p"
    and "required (el n)" and "typeProp (kind (el n)) \<noteq> ascii ''checkbox''"
    and "\<forall>c\<in>set (fieldValue (el n)). isWhiteSpace c"
  shows "validateField f s =
           Inr (False, showError f p
                  (if name (el n) = ascii ''name'' then msgNameRequired
                   else if name (el n) = ascii ''email'' then msgEmailRequired
                   else if name (el n) = ascii ''message'' then msgMessageRequired
                   else msgRequired) (clearError f p s))
         \<and> msgNameRequired \<noteq> msgRequired \<and> msgEmailRequired \<noteq> msgRequired
         \<and> msgMessageRequired \<noteq> msgRequired"
  using assms
  by (simp add: validateField_def checkField_def presenceCheck_def requiredMessage_def
      trimmedValue_whitespace_only required_msgs_distinct)

theorem required_empty_is_invalid_witness:
  "validateField 2 (demoPage (ascii ''  '') [] [] [] [] False) =
     Inr (False, showError 2 1 msgNameRequired
                   (clearError 2 1 (demoPage (ascii ''  '') [] [] [] [] False)))
   \<and> validateField 8 (demoPage [] [] [] [] [] False) =
     Inr (False, showError 8 7 msgRequired (clearError 8 7 (demoPage [] [] [] [] [] False)))"
  using required_empty_is_invalid [of 2 "demoPage (ascii ''  '') [] [] [] [] False" _ 1]
    required_empty_is_invalid [of 8 "demoPage [] [] [] [] [] False" _ 7]
  by (simp add: demo_simps isWhiteSpace_def ascii_def)

text \<open>
  Claim C2. For the textarea named \<open>message\<close> with a non-empty trimmed value,
  \<open>validateField\<close> returns \<open>true\<close> exactly when the trimmed length is within 10 and 1000:
  9 code units are too short, 10 and 1000 pass, 1001 are too long, each failure with its own
  message.
\<close>

theorem message_length_bounds:
  assumes "getNode f (doc s) = Some n" and "parentNode f (doc s) = Some p"
    and "kind (el n) = Textarea" and "name (el n) = ascii ''message''"
    and "trimmedValue (el n) = v" and "v \<noteq> []"
  shows "validateField f s =
           Inr (if length v < 10 then (False, showError f p msgTooShort (clearError f p s))
                else if length v > 1000 then (False, showError f p msgTooLong (clearError f p s))
                else (True, clearError f p s))"
proof -
  have ty: "typeProp (kind (el n)) = ascii ''textarea''" using assms(3) by simp
  have tag: "toLowerCase (tagName (kind (el n))) = ascii ''textarea''"
    using assms(3) by (simp add: toLowerCase_def ascii_def)
  have "checkField (el n) = lengthCheck (el n) v (True, [])"
    using checkField_nonempty [OF assms(5,6)]
    by (simp add: typeCheck_def ty type_names_distinct)
  then show ?thesis
    using assms(1,2,4) by (simp add: validateField_def lengthCheck_def tag)
qed

theorem message_length_bounds_witness:
  "validateField 10 (demoPage [] [] [] [] (replicate 9 0x61) False) =
     Inr (False, showError 10 9 msgTooShort
                   (clearError 10 9 (demoPage [] [] [] [] (replicate 9 0x61) False)))
   \<and> validateField 10 (demoPage [] [] [] [] (replicate 10 0x61) False) =
     Inr (True, clearError 10 9 (demoPage [] [] [] [] (replicate 10 0x61) False))
   \<and> validateField 10 (demoPage [] [] [] [] (replicate 1000 0x61) False) =
     Inr (True, clearError 10 9 (demoPage [] [] [] [] (replicate 1000 0x61) False))
   \<and> validateField 10 (demoPage [] [] [] [] (replicate 1001 0x61) False) =
     Inr (False, showError 10 9 msgTooLong
                   (clearError 10 9 (demoPage [] [] [] [] (replicate 1001 0x61) False)))"
  using message_length_bounds [of 10 "demoPage [] [] [] [] (replicate 9 0x61) False" _ 9 "replicate 9 0x61"]
    message_length_bounds [of 10 "demoPage [] [] [] [] (replicate 10 0x61) False" _ 9 "replicate 10 0x61"]
    message_length_bounds [of 10 "demoPage [] [] [] [] (replicate 1000 0x61) False" _ 9 "replicate 1000 0x61"]
    message_length_bounds [of 10 "demoPage [] [] [] [] (replicate 1001 0x61) False" _ 9 "replicate 1001 0x61"]
  by (simp add: demo_simps trimmedValue_def trim_replicate isWhiteSpace_def)

text \<open>
  Claim C1. For a field of type \<open>email\<close> with a non-empty trimmed value \<open>v\<close>: if \<open>v\<close> has no
  \<open>@\<close>, or no dot in the part after its first \<open>@\<close>, \<open>validateField\<close> returns \<open>false\<close> and shows
  the invalid-email message; if \<open>v\<close> is a non-empty local part, \<open>@\<close>, a non-empty domain, a
  dot and a non-empty top-level part, without white space and without a further \<open>@\<close>, it
  returns \<open>true\<close>.
\<close>

theorem email_validation:
  assumes "getNode f (doc s) = Some n" and "parentNode f (doc s) = Some p"
    and "typeProp (kind (el n)) = ascii ''email''"
    and "trimmedValue (el n) = v" and "v \<noteq> []"
  shows "(0x40 \<notin> set v \<or> 0x2E \<notin> set (domainPart v) \<longrightarrow>
            validateField f s = Inr (False, showError f p msgEmailInvalid (clearError f p s)))
       \<and> (\<forall>l d t. v = l @ [0x40] @ d @ [0x2E] @ t \<and> l \<noteq> [] \<and> d \<noteq> [] \<and> t \<noteq> [] \<and>
                  (\<forall>c\<in>set (l @ d @ t). \<not> isWhiteSpace c \<and> c \<noteq> 0x40) \<longrightarrow>
            validateField f s = Inr (True, clearError f p s))"
proof -
  have chk: "checkField (el n) = (if \<not> test emailRegex v then (False, msgEmailInvalid) else (True, []))"
    using checkField_nonempty [OF assms(4,5)] typed_input_is_no_textarea [of "kind (el n)"] assms(3)
    by (simp add: type_names_distinct lengthCheck_def typeCheck_def)
  have vf: "validateField f s =
      Inr (if test emailRegex v then (True, clearError f p s)
           else (False, showError f p msgEmailInvalid (clearError f p s)))"
    using assms(1,2) by (simp add: validateField_def chk)
  have bad: "\<not> test emailRegex v" if "0x40 \<notin> set v \<or> 0x2E \<notin> set (domainPart v)"
  proof
    assume "test emailRegex v"
    then obtain l d t where v: "v = l @ [0x40] @ d @ [0x2E] @ t"
      and c: "\<forall>c\<in>set (l @ d @ t). \<not> isWhiteSpace c \<and> c \<noteq> 0x40"
      unfolding test_emailRegex by blast
    from c have "\<forall>c\<in>set l. c \<noteq> 0x40" by simp
    then have "domainPart v = d @ [0x2E] @ t"
      unfolding v by (rule domainPart_of_email)
    with that v show False by simp
  qed
  show ?thesis
  proof (intro conjI impI allI)
    assume "0x40 \<notin> set v \<or> 0x2E \<notin> set (domainPart v)"
    then show "validateField f s = Inr (False, showError f p msgEmailInvalid (clearError f p s))"
      using bad by (simp add: vf)
  next
    fix l d t
    assume "v = l @ [0x40] @ d @ [0x2E] @ t \<and> l \<noteq> [] \<and> d \<noteq> [] \<and> t \<noteq> [] \<and>
            (\<forall>c\<in>set (l @ d @ t). \<not> isWhiteSpace c \<and> c \<noteq> 0x40)"
    then have "test emailRegex v" unfolding test_emailRegex by blast
    then show "validateField f s = Inr (True, clearError f p s)"
      by (simp add: vf)
  qed
qed

theorem email_validation_witness:
  "validateField 4 (demoPage [] (ascii ''a@b'') [] [] [] False) =
     Inr (False, showError 4 3 msgEmailInvalid
                   (clearError 4 3 (demoPage [] (ascii ''a@b'') [] [] [] False)))
   \<and> validateField 4 (demoPage [] (ascii ''ab.c'') [] [] [] False) =
     Inr (False, showError 4 3 msgEmailInvalid
                   (clearError 4 3 (demoPage [] (ascii ''ab.c'') [] [] [] False)))
   \<and> validateField 4 (demoPage [] (ascii ''a@b.c'') [] [] [] False) =
     Inr (True, clearError 4 3 (demoPage [] (ascii ''a@b.c'') [] [] [] False))"
proof -
  have "validateField 4 (demoPage [] (ascii ''a@b'') [] [] [] False) =
     Inr (False, showError 4 3 msgEmailInvalid
                   (clearError 4 3 (demoPage [] (ascii ''a@b'') [] [] [] False)))"
    using email_validation [of 4 "demoPage [] (ascii ''a@b'') [] [] [] False" _ 3 "ascii ''a@b''",
        THEN conjunct1]
    by (simp add: demo_simps trimmedValue_def trim_def domainPart_def isWhiteSpace_def ascii_def)
  moreover have "validateField 4 (demoPage [] (ascii ''ab.c'') [] [] [] False) =
     Inr (False, showError 4 3 msgEmailInvalid
                   (clearError 4 3 (demoPage [] (ascii ''ab.c'') [] [] [] False)))"
    using email_validation [of 4 "demoPage [] (ascii ''ab.c'') [] [] [] False" _ 3 "ascii ''ab.c''",
        THEN conjunct1]
    by (simp add: demo_simps trimmedValue_def trim_def domainPart_def isWhiteSpace_def ascii_def)
  moreover have "validateField 4 (demoPage [] (ascii ''a@b.c'') [] [] [] False) =
     Inr (True, clearError 4 3 (demoPage [] (ascii ''a@b.c'') [] [] [] False))"
    using email_validation [of 4 "demoPage [] (ascii ''a@b.c'') [] [] [] False" _ 3 "ascii ''a@b.c''",
        THEN conjunct2, rule_format, where l = "[0x61]" and d = "[0x62]" and t = "[0x63]"]
    by (simp add: demo_simps trimmedValue_def trim_def isWhiteSpace_def ascii_def)
  ultimately show ?thesis by simp
qed

text \<open>
  Claim C6, as amended. For a field of type \<open>tel\<close> with a non-empty trimmed value,
  \<open>validateField\<close> returns \<open>true\<close> exactly when the value is an optional leading \<open>+\<close>
  followed by at least 8 characters, each a digit, a white-space character, a hyphen, a
  parenthesis or a dot; every other value is invalid with the invalid-phone message.
\<close>

theorem phone_validation:
  assumes "getNode f (doc s) = Some n" and "parentNode f (doc s) = Some p"
    and "typeProp (kind (el n)) = ascii ''tel''"
    and "trimmedValue (el n) = v" and "v \<noteq> []"
  shows "validateField f s =
           Inr (if \<exists>body. (v = body \<or> v = 0x2B # body) \<and> 8 \<le> length body \<and>
                          (\<forall>c\<in>set body. isPhoneChar c)
                then (True, clearError f p s)
                else (False, showError f p msgPhoneInvalid (clearError f p s)))"
proof -
  have chk: "checkField (el n) = (if \<not> test phoneRegex v then (False, msgPhoneInvalid) else (True, []))"
    using checkField_nonempty [OF assms(4,5)] typed_input_is_no_textarea [of "kind (el n)"] assms(3)
    by (simp add: type_names_distinct lengthCheck_def typeCheck_def)
  show ?thesis
    using assms(1,2) by (simp add: validateField_def chk test_phoneRegex isPhoneChar_def)
qed

theorem phone_validation_witness:
  "validateField 6 (demoPage [] [] (ascii ''+34 971 123-456'') [] [] False) =
     Inr (True, clearError 6 5 (demoPage [] [] (ascii ''+34 971 123-456'') [] [] False))
   \<and> validateField 6 (demoPage [] [] (ascii ''0171/1234567'') [] [] False) =
     Inr (False, showError 6 5 msgPhoneInvalid
                   (clearError 6 5 (demoPage [] [] (ascii ''0171/1234567'') [] [] False)))"
  using phone_validation [of 6 "demoPage [] [] (ascii ''+34 971 123-456'') [] [] False" _ 5
      "ascii ''+34 971 123-456''"]
    phone_validation [of 6 "demoPage [] [] (ascii ''0171/1234567'') [] [] False" _ 5
      "ascii ''0171/1234567''"]
  by (simp add: demo_simps trimmedValue_def trim_def isPhoneChar_def isWhiteSpace_def ascii_def
      conj_disj_distribR ex_disj_distrib)

text \<open>
  Claim C6 as stated counts the leading \<open>+\<close> among the 8 characters and allows spaces only.
  The value \<open>+1234567\<close> has 8 characters of the stated shape and is rejected: the pattern
  asks for 8 characters after the \<open>+\<close>. The value \<open>1234\<close>, tabulator, \<open>5678\<close> is not of
  the stated shape and is accepted: the pattern takes every white-space character.
\<close>

theorem phone_shape_counterexample:
  "internationalPhoneShape (ascii ''+1234567'')
   \<and> trimmedValue (control (Input (ascii ''tel'')) (ascii ''phone'') (ascii ''+1234567'') False False)
     = ascii ''+1234567''
   \<and> validateField 6 (demoPage [] [] (ascii ''+1234567'') [] [] False)
     = Inr (False, showError 6 5 msgPhoneInvalid
                     (clearError 6 5 (demoPage [] [] (ascii ''+1234567'') [] [] False)))
   \<and> \<not> internationalPhoneShape (ascii ''1234'' @ [0x09] @ ascii ''5678'')
   \<and> trimmedValue (control (Input (ascii ''tel'')) (ascii ''phone'')
         (ascii ''1234'' @ [0x09] @ ascii ''5678'') False False)
     = ascii ''1234'' @ [0x09] @ ascii ''5678''
   \<and> validateField 6 (demoPage [] [] (ascii ''1234'' @ [0x09] @ ascii ''5678'') [] [] False)
     = Inr (True, clearError 6 5 (demoPage [] [] (ascii ''1234'' @ [0x09] @ ascii ''5678'') [] [] False))"
  by code_simp

text \<open>
  Claim C5, as amended. For the text field named \<open>name\<close> with a non-empty trimmed value,
  \<open>validateField\<close> returns \<open>true\<close> exactly when the value has at least 2 characters, each a
  Latin letter, one of the German letters of the pattern, a white-space character, a hyphen
  or a period; every other value is invalid with the invalid-name message.
\<close>

theorem name_validation:
  assumes "getNode f (doc s) = Some n" and "parentNode f (doc s) = Some p"
    and "typeProp (kind (el n)) = ascii ''text''" and "name (el n) = ascii ''name''"
    and "trimmedValue (el n) = v" and "v \<noteq> []"
  shows "validateField f s =
           Inr (if 2 \<le> length v \<and> (\<forall>c\<in>set v. isNameChar c)
                then (True, clearError f p s)
                else (False, showError f p msgNameInvalid (clearError f p s)))"
proof -
  have chk: "checkField (el n) = (if \<not> test nameRegex v then (False, msgNameInvalid) else (True, []))"
    using checkField_nonempty [OF assms(5,6)] typed_input_is_no_textarea [of "kind (el n)"] assms(3,4)
    by (simp add: type_names_distinct lengthCheck_def typeCheck_def)
  show ?thesis
    using assms(1,2) by (simp add: validateField_def chk test_nameRegex isNameChar_def isNameLetter_def)
qed

theorem name_validation_witness:
  "validateField 2 (demoPage (ascii ''Anna Muster'') [] [] [] [] False) =
     Inr (True, clearError 2 1 (demoPage (ascii ''Anna Muster'') [] [] [] [] False))
   \<and> validateField 2 (demoPage (ascii ''A'') [] [] [] [] False) =
     Inr (False, showError 2 1 msgNameInvalid
                   (clearError 2 1 (demoPage (ascii ''A'') [] [] [] [] False)))"
  using name_validation [of 2 "demoPage (ascii ''Anna Muster'') [] [] [] [] False" _ 1
      "ascii ''Anna Muster''"]
    name_validation [of 2 "demoPage (ascii ''A'') [] [] [] [] False" _ 1 "ascii ''A''"]
  by (simp add: demo_simps trimmedValue_def trim_def isNameChar_def isNameLetter_def
      isWhiteSpace_def ascii_def)

text \<open>
  The claim as stated asks for two letters. The value \<open>A.\<close> has one letter and a period, and
  passes.
\<close>

theorem name_two_letters_counterexample:
  "validateField 2 (demoPage (ascii ''A.'') [] [] [] [] False)
     = Inr (True, clearError 2 1 (demoPage (ascii ''A.'') [] [] [] [] False))
   \<and> trimmedValue (control (Input (ascii ''text'')) (ascii ''name'') (ascii ''A.'') True False)
     = ascii ''A.''
   \<and> \<not> twoLetterName (ascii ''A.'')"
  by code_simp

section \<open>The form endpoint's responses\<close>

text \<open>
  Claim C3, as amended. For every request to either handler: a method other than \<open>POST\<close>
  gets 405 with an error, except that the Vercel handler answers \<open>OPTIONS\<close> with 200 and no
  body. A \<open>POST\<close> whose body cannot be read (parsing throws, or the body is \<open>null\<close> or
  \<open>undefined\<close>) gets 500 with an error. Otherwise, when required fields are missing the
  response is 400 with \<open>error\<close> and \<open>missingFields\<close>; else, when converting the e-mail value
  to a string throws, 500; else, when the string does not match the e-mail pattern, 400; else,
  when the honeypot field \<open>website\<close> is truthy, 400; and in every remaining case 200 with
  \<open>success: true\<close>, \<open>message\<close> and \<open>leadId\<close>.
\<close>

theorem form_endpoint_responses:
  assumes "h = netlifyHandler \<or> h = vercelHandler"
  shows "(httpMethod r \<noteq> ascii ''POST'' \<longrightarrow>
            statusCode (netlifyHandler r) = 405 \<and>
            json (netlifyHandler r) = Some (errorBody msgMethodNotAllowed))
       \<and> (httpMethod r \<noteq> ascii ''POST'' \<and> httpMethod r \<noteq> ascii ''OPTIONS'' \<longrightarrow>
            statusCode (vercelHandler r) = 405 \<and>
            json (vercelHandler r) = Some (errorBody msgMethodNotAllowed))
       \<and> (httpMethod r = ascii ''OPTIONS'' \<longrightarrow>
            statusCode (vercelHandler r) = 200 \<and> json (vercelHandler r) = None)
       \<and> (httpMethod r = ascii ''POST'' \<and>
            (reqBody r = Throws e \<or> reqBody r = Value JUndefined \<or> reqBody r = Value JNull) \<longrightarrow>
            statusCode (h r) = 500 \<and> json (h r) = Some (errorBody msgServerError))
       \<and> (httpMethod r = ascii ''POST'' \<and> reqBody r = Value formData \<and>
            formData \<noteq> JUndefined \<and> formData \<noteq> JNull \<longrightarrow>
            (missingOf formData \<noteq> [] \<longrightarrow>
               statusCode (h r) = 400 \<and>
               json (h r) = Some [(ascii ''error'', JStr msgMissingFields),
                                  (ascii ''missingFields'', JArr (map JStr (missingOf formData)))])
          \<and> (missingOf formData = [] \<longrightarrow>
               (case toStringJS (bodyField formData (ascii ''email'')) of
                  Inl err \<Rightarrow> statusCode (h r) = 500 \<and> json (h r) = Some (errorBody msgServerError)
                | Inr s \<Rightarrow>
                    (\<not> test emailRegex s \<longrightarrow>
                       statusCode (h r) = 400 \<and> json (h r) = Some (errorBody msgBadEmail))
                  \<and> (test emailRegex s \<and> truthy (bodyField formData (ascii ''website'')) \<longrightarrow>
                       statusCode (h r) = 400 \<and> json (h r) = Some (errorBody msgSpam))
                  \<and> (test emailRegex s \<and> \<not> truthy (bodyField formData (ascii ''website'')) \<longrightarrow>
                       statusCode (h r) = 200 \<and> json (h r) = Some (successBody r)))))"
proof -
  have n405: "httpMethod r \<noteq> ascii ''POST'' \<longrightarrow>
      statusCode (netlifyHandler r) = 405 \<and>
      json (netlifyHandler r) = Some (errorBody msgMethodNotAllowed)"
    by (simp add: netlifyHandler_def)
  have v405: "httpMethod r \<noteq> ascii ''POST'' \<and> httpMethod r \<noteq> ascii ''OPTIONS'' \<longrightarrow>
      statusCode (vercelHandler r) = 405 \<and>
      json (vercelHandler r) = Some (errorBody msgMethodNotAllowed)"
    by (simp add: vercelHandler_def)
  have m200: "httpMethod r = ascii ''OPTIONS'' \<longrightarrow>
      statusCode (vercelHandler r) = 200 \<and> json (vercelHandler r) = None"
    by (simp add: vercelHandler_def)
  have m500: "httpMethod r = ascii ''POST'' \<and>
      (reqBody r = Throws e \<or> reqBody r = Value JUndefined \<or> reqBody r = Value JNull) \<longrightarrow>
      statusCode (h r) = 500 \<and> json (h r) = Some (errorBody msgServerError)"
  proof
    assume a: "httpMethod r = ascii ''POST'' \<and>
      (reqBody r = Throws e \<or> reqBody r = Value JUndefined \<or> reqBody r = Value JNull)"
    then obtain hs where hs: "statusCode (h r) = (case formChecks r hs of Inl err \<Rightarrow> 500 | Inr res \<Rightarrow> statusCode res)"
      "json (h r) = (case formChecks r hs of Inl err \<Rightarrow> Some (errorBody msgServerError)
                                                  | Inr res \<Rightarrow> json res)"
      using handler_post [OF assms] by blast
    from a have "\<exists>e'. formChecks r hs = Inl e'"
      by (intro formChecks_throws) blast
    then show "statusCode (h r) = 500 \<and> json (h r) = Some (errorBody msgServerError)"
      using hs by auto
  qed
  have post: "httpMethod r = ascii ''POST'' \<and> reqBody r = Value formData \<and>
            formData \<noteq> JUndefined \<and> formData \<noteq> JNull \<longrightarrow>
            (missingOf formData \<noteq> [] \<longrightarrow>
               statusCode (h r) = 400 \<and>
               json (h r) = Some [(ascii ''error'', JStr msgMissingFields),
                                  (ascii ''missingFields'', JArr (map JStr (missingOf formData)))])
          \<and> (missingOf formData = [] \<longrightarrow>
               (case toStringJS (bodyField formData (ascii ''email'')) of
                  Inl err \<Rightarrow> statusCode (h r) = 500 \<and> json (h r) = Some (errorBody msgServerError)
                | Inr s \<Rightarrow>
                    (\<not> test emailRegex s \<longrightarrow>
                       statusCode (h r) = 400 \<and> json (h r) = Some (errorBody msgBadEmail))
                  \<and> (test emailRegex s \<and> truthy (bodyField formData (ascii ''website'')) \<longrightarrow>
                       statusCode (h r) = 400 \<and> json (h r) = Some (errorBody msgSpam))
                  \<and> (test emailRegex s \<and> \<not> truthy (bodyField formData (ascii ''website'')) \<longrightarrow>
                       statusCode (h r) = 200 \<and> json (h r) = Some (successBody r))))"
  proof
    assume a: "httpMethod r = ascii ''POST'' \<and> reqBody r = Value formData \<and>
            formData \<noteq> JUndefined \<and> formData \<noteq> JNull"
    then have fc: "formChecks r hs =
     (if missingOf formData \<noteq> [] then
        Inr \<lparr>statusCode = 400, headers = [],
             json = Some [(ascii ''error'', JStr msgMissingFields),
                          (ascii ''missingFields'', JArr (map JStr (missingOf formData)))]\<rparr>
      else (case toStringJS (bodyField formData (ascii ''email'')) of
              Inl e \<Rightarrow> Inl e
            | Inr s \<Rightarrow>
               if \<not> test emailRegex s then
                 Inr \<lparr>statusCode = 400, headers = [], json = Some (errorBody msgBadEmail)\<rparr>
               else if truthy (bodyField formData (ascii ''website'')) then
                 Inr \<lparr>statusCode = 400, headers = [], json = Some (errorBody msgSpam)\<rparr>
               else Inr \<lparr>statusCode = 200, headers = hs, json = Some (successBody r)\<rparr>))" for hs
      by (intro formChecks_value) simp_all
    from a obtain hs where hs: "statusCode (h r) = (case formChecks r hs of Inl err \<Rightarrow> 500 | Inr res \<Rightarrow> statusCode res)"
      "json (h r) = (case formChecks r hs of Inl err \<Rightarrow> Some (errorBody msgServerError)
                                                  | Inr res \<Rightarrow> json res)"
      using handler_post [OF assms] by blast
    show "(missingOf formData \<noteq> [] \<longrightarrow>
               statusCode (h r) = 400 \<and>
               json (h r) = Some [(ascii ''error'', JStr msgMissingFields),
                                  (ascii ''missingFields'', JArr (map JStr (missingOf formData)))])
          \<and> (missingOf formData = [] \<longrightarrow>
               (case toStringJS (bodyField formData (ascii ''email'')) of
                  Inl err \<Rightarrow> statusCode (h r) = 500 \<and> json (h r) = Some (errorBody msgServerError)
                | Inr s \<Rightarrow>
                    (\<not> test emailRegex s \<longrightarrow>
                       statusCode (h r) = 400 \<and> json (h r) = Some (errorBody msgBadEmail))
                  \<and> (test emailRegex s \<and> truthy (bodyField formData (ascii ''website'')) \<longrightarrow>
                       statusCode (h r) = 400 \<and> json (h r) = Some (errorBody msgSpam))
                  \<and> (test emailRegex s \<and> \<not> truthy (bodyField formData (ascii ''website'')) \<longrightarrow>
                       statusCode (h r) = 200 \<and> json (h r) = Some (successBody r))))"
      unfolding hs fc by (simp split: sum.splits)
  qed
  from n405 v405 m200 m500 post show ?thesis by blast
qed

theorem form_endpoint_responses_witness:
  "statusCode (netlifyHandler (demoRequest (ascii ''GET'') (Value JUndefined))) = 405
   \<and> statusCode (vercelHandler (demoRequest (ascii ''OPTIONS'') (Value JUndefined))) = 200
   \<and> statusCode (vercelHandler (demoRequest (ascii ''POST'') (Throws SyntaxError))) = 500
   \<and> json (netlifyHandler (demoRequest (ascii ''POST'') (Value (JObj [(ascii ''name'', JStr (ascii ''Anna''))]))))
       = Some [(ascii ''error'', JStr msgMissingFields),
               (ascii ''missingFields'', JArr [JStr (ascii ''email''), JStr (ascii ''courseInterest'')])]
   \<and> statusCode (netlifyHandler (demoRequest (ascii ''POST'')
        (Value (demoBody (JStr (ascii ''anna.example.de'')) JUndefined)))) = 400
   \<and> statusCode (netlifyHandler (demoRequest (ascii ''POST'')
        (Value (demoBody (JStr (ascii ''anna@example.de'')) (JStr (ascii ''http://x'')))))) = 400
   \<and> json (vercelHandler (demoRequest (ascii ''POST'')
        (Value (demoBody (JStr (ascii ''anna@example.de'')) (JStr []))))) =
        Some (successBody (demoRequest (ascii ''POST'')
        (Value (demoBody (JStr (ascii ''anna@example.de'')) (JStr [])))))
   \<and> statusCode (netlifyHandler (demoRequest (ascii ''POST'')
        (Value (demoBody (JObj [(ascii ''toString'', JNull)]) JUndefined)))) = 500"
proof -
  have n: "netlifyHandler = netlifyHandler \<or> netlifyHandler = vercelHandler"
    and v: "vercelHandler = netlifyHandler \<or> vercelHandler = vercelHandler" by simp_all
  note N = form_endpoint_responses [OF n] and V = form_endpoint_responses [OF v]
  have good: "test emailRegex (ascii ''anna@example.de'')"
    and bad: "\<not> test emailRegex (ascii ''anna.example.de'')" by code_simp+
  have c1: "statusCode (netlifyHandler (demoRequest (ascii ''GET'') (Value JUndefined))) = 405"
    using N [of "demoRequest (ascii ''GET'') (Value JUndefined)", THEN conjunct1]
    by (simp add: demoRequest_sel method_names)
  have c2: "statusCode (vercelHandler (demoRequest (ascii ''OPTIONS'') (Value JUndefined))) = 200"
    using V [of "demoRequest (ascii ''OPTIONS'') (Value JUndefined)", THEN conjunct2, THEN conjunct2,
        THEN conjunct1]
    by (simp add: demoRequest_sel)
  have c3: "statusCode (vercelHandler (demoRequest (ascii ''POST'') (Throws SyntaxError))) = 500"
    using V [of "demoRequest (ascii ''POST'') (Throws SyntaxError)" SyntaxError,
        THEN conjunct2, THEN conjunct2, THEN conjunct2, THEN conjunct1]
    by (simp add: demoRequest_sel)
  have m4: "missingOf (JObj [(ascii ''name'', JStr (ascii ''Anna''))])
      = [ascii ''email'', ascii ''courseInterest'']" by code_simp
  have c4: "json (netlifyHandler (demoRequest (ascii ''POST'')
        (Value (JObj [(ascii ''name'', JStr (ascii ''Anna''))]))))
       = Some [(ascii ''error'', JStr msgMissingFields),
               (ascii ''missingFields'', JArr [JStr (ascii ''email''), JStr (ascii ''courseInterest'')])]"
    using N [of "demoRequest (ascii ''POST'') (Value (JObj [(ascii ''name'', JStr (ascii ''Anna''))]))"
        _ "JObj [(ascii ''name'', JStr (ascii ''Anna''))]",
        THEN conjunct2, THEN conjunct2, THEN conjunct2, THEN conjunct2]
    by (simp add: demoRequest_sel m4)
  have m0: "missingOf (demoBody (JStr e) w) = (if e = [] then [ascii ''email''] else [])" for e w
    by (simp add: missingOf_def demoBody_def bodyField_def requiredFields_def ascii_def)
  have mo: "missingOf (demoBody (JObj kvs) w) = []" for kvs w
    by (simp add: missingOf_def demoBody_def bodyField_def requiredFields_def ascii_def)
  have em: "bodyField (demoBody e w) (ascii ''email'') = e"
    and ws: "bodyField (demoBody e w) (ascii ''website'') = w" for e w
    by (simp_all add: demoBody_def bodyField_def ascii_def)
  have ne: "ascii ''anna.example.de'' \<noteq> []" "ascii ''anna@example.de'' \<noteq> []"
    by (simp_all add: ascii_def)
  have c5: "statusCode (netlifyHandler (demoRequest (ascii ''POST'')
        (Value (demoBody (JStr (ascii ''anna.example.de'')) JUndefined)))) = 400"
    using N [of "demoRequest (ascii ''POST'') (Value (demoBody (JStr (ascii ''anna.example.de'')) JUndefined))"
        _ "demoBody (JStr (ascii ''anna.example.de'')) JUndefined",
        THEN conjunct2, THEN conjunct2, THEN conjunct2, THEN conjunct2]
    by (simp add: demoRequest_sel m0 em ws ne bad) (simp add: demoBody_def)
  have c6: "statusCode (netlifyHandler (demoRequest (ascii ''POST'')
        (Value (demoBody (JStr (ascii ''anna@example.de'')) (JStr (ascii ''http://x'')))))) = 400"
    using N [of "demoRequest (ascii ''POST'') (Value (demoBody (JStr (ascii ''anna@example.de'')) (JStr (ascii ''http://x''))))"
        _ "demoBody (JStr (ascii ''anna@example.de'')) (JStr (ascii ''http://x''))",
        THEN conjunct2, THEN conjunct2, THEN conjunct2, THEN conjunct2]
    by (simp add: demoRequest_sel m0 em ws ne good) (simp add: demoBody_def ascii_def)
  have c7: "json (vercelHandler (demoRequest (ascii ''POST'')
        (Value (demoBody (JStr (ascii ''anna@example.de'')) (JStr []))))) =
        Some (successBody (demoRequest (ascii ''POST'')
        (Value (demoBody (JStr (ascii ''anna@example.de'')) (JStr [])))))"
    using V [of "demoRequest (ascii ''POST'') (Value (demoBody (JStr (ascii ''anna@example.de'')) (JStr [])))"
        _ "demoBody (JStr (ascii ''anna@example.de'')) (JStr [])",
        THEN conjunct2, THEN conjunct2, THEN conjunct2, THEN conjunct2]
    by (simp add: demoRequest_sel m0 em ws ne good) (simp add: demoBody_def)
  have c8: "statusCode (netlifyHandler (demoRequest (ascii ''POST'')
        (Value (demoBody (JObj [(ascii ''toString'', JNull)]) JUndefined)))) = 500"
    using N [of "demoRequest (ascii ''POST'') (Value (demoBody (JObj [(ascii ''toString'', JNull)]) JUndefined))"
        _ "demoBody (JObj [(ascii ''toString'', JNull)]) JUndefined",
        THEN conjunct2, THEN conjunct2, THEN conjunct2, THEN conjunct2]
    by (simp add: demoRequest_sel mo em ws) (simp add: demoBody_def)
  from c1 c2 c3 c4 c5 c6 c7 c8 show ?thesis by blast
qed

text \<open>
  As stated, the claim gives every \<open>POST\<close> a 400 or a 200 and every other method a 405. A
  \<open>POST\<close> whose body is not JSON, or is the JSON text \<open>null\<close>, gets 500, and the Vercel
  handler answers \<open>OPTIONS\<close> with 200.
\<close>

theorem form_endpoint_counterexample:
  "statusCode (netlifyHandler (demoRequest (ascii ''POST'') (Throws SyntaxError))) = 500
   \<and> statusCode (netlifyHandler (demoRequest (ascii ''POST'') (Value JNull))) = 500
   \<and> statusCode (vercelHandler (demoRequest (ascii ''OPTIONS'') (Value JUndefined))) = 200
   \<and> json (vercelHandler (demoRequest (ascii ''OPTIONS'') (Value JUndefined))) = None"
  by (simp add: netlifyHandler_def vercelHandler_def demoRequest_def formChecks_def
      requiredFields_def ascii_def)

lemma nodes_self: "d \<in> set (nodes d)"
  by (cases d) simp

lemma nodes_eq: "nodes d = d # descendants d"
  by (cases d) (simp add: descendants_def)

lemma set_nodes: "set (nodes d) = insert d (set (descendants d))"
  by (simp add: nodes_eq)

lemma descendants_iff: "n \<in> set (descendants d) \<longleftrightarrow> (\<exists>k\<in>set (kids d). n \<in> set (nodes k))"
  by (auto simp: descendants_def)

lemma allNodes_Elem:
  "allNodes R (Elem j e ks) \<longleftrightarrow> R j e \<and> (\<forall>k\<in>set ks. allNodes R k)"
  by (auto simp: allNodes_def)

lemma below_iff: "below R d \<longleftrightarrow> (\<forall>k\<in>set (kids d). allNodes R k)"
  by (auto simp: allNodes_def below_def descendants_iff)

lemma allNodes_below: "allNodes R d \<Longrightarrow> below R d"
  by (simp add: allNodes_def below_def set_nodes)

lemma nodes_trans: "n \<in> set (nodes d) \<Longrightarrow> m \<in> set (nodes n) \<Longrightarrow> m \<in> set (nodes d)"
proof (induction d)
  case (Elem j e ks)
  then show ?case by (auto simp: set_nodes [of "Elem j e ks"] descendants_iff)
qed

lemma allNodes_sub: "allNodes R d \<Longrightarrow> n \<in> set (nodes d) \<Longrightarrow> allNodes R n"
  unfolding allNodes_def using nodes_trans by blast

lemma allNodes_modify:
  assumes "allNodes R d" and "\<And>e. R f e \<Longrightarrow> R f (g e)"
  shows "allNodes R (modify f g d)"
  using assms(1)
proof (induction d)
  case (Elem j e ks)
  then show ?case by (auto simp: allNodes_Elem assms(2))
qed

lemma allNodes_removeNode: "allNodes R d \<Longrightarrow> allNodes R (removeNode x d)"
proof (induction d)
  case (Elem j e ks)
  then show ?case by (auto simp: allNodes_Elem)
qed

lemma allNodes_appendChild:
  "allNodes R d \<Longrightarrow> allNodes R new \<Longrightarrow> allNodes R (appendChild p new d)"
proof (induction d)
  case (Elem j e ks)
  then show ?case by (auto simp: allNodes_Elem)
qed

lemma allNodes_insertFirst:
  "allNodes R d \<Longrightarrow> allNodes R new \<Longrightarrow> allNodes R (insertFirst p new d)"
proof (induction d)
  case (Elem j e ks)
  then show ?case by (auto simp: allNodes_Elem)
qed

lemma allNodes_forEach:
  assumes "allNodes R d" and "\<And>i t. allNodes R t \<Longrightarrow> allNodes R (f i t)"
  shows "allNodes R (forEach xs f d)"
  using assms(1) unfolding forEach_def
  by (induction xs arbitrary: d) (simp_all add: assms(2))

lemma nid_modify [simp]: "nid (modify f g d) = nid d"
  by (cases d) simp

lemma nid_removeNode [simp]: "nid (removeNode x d) = nid d"
  by (cases d) simp

lemma nid_appendChild [simp]: "nid (appendChild p new d) = nid d"
  by (cases d) simp

lemma nid_insertFirst [simp]: "nid (insertFirst p new d) = nid d"
  by (cases d) simp

lemma nid_forEach:
  assumes "\<And>i t. nid (f i t) = nid t"
  shows "nid (forEach xs f d) = nid d"
  unfolding forEach_def by (induction xs arbitrary: d) (simp_all add: assms)

lemma getNode_in: "getNode i d = Some n \<Longrightarrow> n \<in> set (nodes d) \<and> nid n = i"
  by (auto simp: getNode_def find_Some_iff)

lemma querySelector_in:
  assumes "querySelector sel p d = Some x"
  shows "x \<in> set (nodes d)" and "sel (el x)"
    and "\<exists>n. getNode p d = Some n \<and> x \<in> set (descendants n)"
proof -
  from assms obtain n where n: "getNode p d = Some n"
    and f: "find (\<lambda>m. sel (el m)) (descendants n) = Some x"
    by (auto simp: querySelector_def split: option.splits)
  from f have x: "x \<in> set (descendants n)" and s: "sel (el x)"
    by (auto simp: find_Some_iff)
  from x have "x \<in> set (nodes n)" by (simp add: set_nodes)
  with n show "x \<in> set (nodes d)" using getNode_in nodes_trans by blast
  from s show "sel (el x)" .
  from n x show "\<exists>n. getNode p d = Some n \<and> x \<in> set (descendants n)" by blast
qed

lemma querySelectorAll_in:
  assumes "i \<in> set (querySelectorAll sel p d)"
  shows "\<exists>x\<in>set (nodes d). nid x = i \<and> sel (el x)"
proof (cases "getNode p d")
  case None
  with assms show ?thesis by (simp add: querySelectorAll_def)
next
  case (Some n)
  with assms obtain x where x: "x \<in> set (descendants n)" "sel (el x)" "nid x = i"
    by (auto simp: querySelectorAll_def)
  from x(1) have "x \<in> set (nodes n)" by (simp add: set_nodes)
  with Some have "x \<in> set (nodes d)" using getNode_in nodes_trans by blast
  with x show ?thesis by blast
qed

lemma getNode_root [simp]: "getNode (nid d) d = Some d"
  by (simp add: getNode_def nodes_eq)

subsection \<open>More on nodes\<close>

lemma concat_map_map: "concat (map (\<lambda>k. map h (f k)) ks) = map h (concat (map f ks))"
  by (induction ks) simp_all

lemma nodes_modify: "nodes (modify f g d) = map (modify f g) (nodes d)"
proof (induction d)
  case (Elem j e ks)
  have "concat (map (nodes \<circ> modify f g) ks) = concat (map (\<lambda>k. map (modify f g) (nodes k)) ks)"
    using Elem by (intro arg_cong [where f = concat] map_cong) simp_all
  then show ?case by (simp add: concat_map_map)
qed

lemma el_modify: "el (modify f g d) = (if nid d = f then g (el d) else el d)"
  by (cases d) simp

lemma kids_modify: "kids (modify f g d) = map (modify f g) (kids d)"
  by (cases d) simp

lemma kids_removeNode:
  "kids (removeNode x d) = map (removeNode x) (filter (\<lambda>k. nid k \<noteq> x) (kids d))"
  by (cases d) simp

lemma kids_appendChild:
  "kids (appendChild p new d) = map (appendChild p new) (kids d) @ (if nid d = p then [new] else [])"
  by (cases d) simp

lemma kids_insertFirst:
  "kids (insertFirst p new d) = (if nid d = p then [new] else []) @ map (insertFirst p new) (kids d)"
  by (cases d) simp

lemma el_removeNode [simp]: "el (removeNode x d) = el d"
  by (cases d) simp

lemma el_appendChild [simp]: "el (appendChild p new d) = el d"
  by (cases d) simp

lemma el_insertFirst [simp]: "el (insertFirst p new d) = el d"
  by (cases d) simp

lemma find_map_comp: "find P (map h xs) = map_option h (find (\<lambda>x. P (h x)) xs)"
  by (induction xs) simp_all

lemma getNode_modify: "getNode i (modify f g d) = map_option (modify f g) (getNode i d)"
  by (simp add: getNode_def nodes_modify find_map_comp)

lemma parentNode_modify: "parentNode i (modify f g d) = parentNode i d"
  by (simp add: parentNode_def nodes_modify find_map_comp kids_modify option.map_comp comp_def
      image_image)

subsection \<open>Counting nodes\<close>

lemma length_filter_concat:
  "length (filter P (concat xss)) = sum_list (map (\<lambda>xs. length (filter P xs)) xss)"
  by (induction xss) simp_all

lemma cnt_Elem:
  "cnt R (Elem j e ks) = (if R j e then 1 else 0) + sum_list (map (cnt R) ks)"
  by (simp add: cnt_def [abs_def] length_filter_concat comp_def)

lemma cnt_modify:
  assumes "\<And>e. R f (g e) = R f e"
  shows "cnt R (modify f g d) = cnt R d"
proof (induction d)
  case (Elem j e ks)
  have m: "map (cnt R \<circ> modify f g) ks = map (cnt R) ks"
    by (intro map_cong refl) (simp add: Elem)
  show ?case by (simp add: cnt_Elem assms m)
qed

lemma sum_list_filter_le:
  assumes "\<And>k. k \<in> set ks \<Longrightarrow> f k \<le> (g k :: nat)"
  shows "sum_list (map f (filter P ks)) \<le> sum_list (map g ks)"
  using assms
proof (induction ks)
  case Nil
  show ?case by simp
next
  case (Cons k ks)
  then have "sum_list (map f (filter P ks)) \<le> sum_list (map g ks)" and "f k \<le> g k"
    by simp_all
  then show ?case by simp
qed

lemma cnt_removeNode_le: "cnt R (removeNode x d) \<le> cnt R d"
proof (induction d)
  case (Elem j e ks)
  have "sum_list (map (cnt R \<circ> removeNode x) (filter (\<lambda>k. nid k \<noteq> x) ks)) \<le> sum_list (map (cnt R) ks)"
    using Elem by (intro sum_list_filter_le) simp
  then show ?case by (simp add: cnt_Elem)
qed

lemma sum_list_filter_less:
  assumes "\<And>k. k \<in> set ks \<Longrightarrow> f k \<le> (g k :: nat)"
    and "k0 \<in> set ks" and "if P k0 then f k0 < g k0 else 0 < g k0"
  shows "sum_list (map f (filter P ks)) < sum_list (map g ks)"
  using assms
proof (induction ks)
  case Nil
  then show ?case by simp
next
  case (Cons k ks)
  have le: "sum_list (map f (filter P ks)) \<le> sum_list (map g ks)"
    using Cons.prems(1) by (intro sum_list_filter_le) simp
  have fk: "f k \<le> g k" using Cons.prems(1) by simp
  show ?case
  proof (cases "k0 = k")
    case True
    with Cons.prems(3) le show ?thesis by (auto split: if_splits)
  next
    case False
    with Cons.prems have "k0 \<in> set ks" by simp
    with Cons have "sum_list (map f (filter P ks)) < sum_list (map g ks)" by simp
    with fk show ?thesis by simp
  qed
qed

lemma cnt_pos: "n \<in> set (nodes d) \<Longrightarrow> R (nid n) (el n) \<Longrightarrow> 0 < cnt R d"
  by (auto simp: cnt_def filter_empty_conv)

lemma cnt_removeNode_less:
  assumes "n \<in> set (descendants d)" and "nid n = x" and "R x (el n)"
  shows "cnt R (removeNode x d) < cnt R d"
  using assms
proof (induction d)
  case (Elem j e ks)
  from Elem.prems(1) obtain k0 where k0: "k0 \<in> set ks" "n \<in> set (nodes k0)"
    by (auto simp: descendants_iff)
  have "if nid k0 \<noteq> x then (cnt R \<circ> removeNode x) k0 < cnt R k0 else 0 < cnt R k0"
  proof (cases "nid k0 = x")
    case True
    with k0(2) Elem.prems show ?thesis by (auto intro: cnt_pos)
  next
    case False
    with k0(2) Elem.prems(2) have "n \<in> set (descendants k0)" by (auto simp: set_nodes)
    with False Elem.IH [OF k0(1)] Elem.prems show ?thesis by simp
  qed
  then have "sum_list (map (cnt R \<circ> removeNode x) (filter (\<lambda>k. nid k \<noteq> x) ks))
      < sum_list (map (cnt R) ks)"
    using k0(1) by (intro sum_list_filter_less [where ?k0.0 = k0]) (simp_all add: cnt_removeNode_le)
  then show ?case by (simp add: cnt_Elem)
qed

lemma cnt_appendChild:
  "cnt R (appendChild p new d) = cnt R d + cnt (\<lambda>i e. i = p) d * cnt R new"
proof (induction d)
  case (Elem j e ks)
  have "sum_list (map (cnt R \<circ> appendChild p new) ks)
      = sum_list (map (\<lambda>k. cnt R k + cnt (\<lambda>i e. i = p) k * cnt R new) ks)"
    using Elem by (intro arg_cong [where f = sum_list] map_cong) simp_all
  also have "\<dots> = sum_list (map (cnt R) ks) + sum_list (map (cnt (\<lambda>i e. i = p)) ks) * cnt R new"
    by (simp add: sum_list_addf sum_list_mult_const)
  finally show ?case by (simp add: cnt_Elem [of R] cnt_Elem [of "\<lambda>i e. i = p"] algebra_simps)
qed

lemma cnt_insertFirst:
  "cnt R (insertFirst p new d) = cnt R d + cnt (\<lambda>i e. i = p) d * cnt R new"
proof (induction d)
  case (Elem j e ks)
  have "sum_list (map (cnt R \<circ> insertFirst p new) ks)
      = sum_list (map (\<lambda>k. cnt R k + cnt (\<lambda>i e. i = p) k * cnt R new) ks)"
    using Elem by (intro arg_cong [where f = sum_list] map_cong) simp_all
  also have "\<dots> = sum_list (map (cnt R) ks) + sum_list (map (cnt (\<lambda>i e. i = p)) ks) * cnt R new"
    by (simp add: sum_list_addf sum_list_mult_const)
  finally show ?case by (simp add: cnt_Elem [of R] cnt_Elem [of "\<lambda>i e. i = p"] algebra_simps)
qed

lemma fieldClosed_clearError:
  assumes "fieldClosed Inv" and "Inv (doc s) (next_id s)"
  shows "Inv (doc (clearError f p s)) (next_id (clearError f p s))"
proof -
  let ?d = "modify f (classList_remove [ascii ''error'', ascii ''border-red-500'']) (doc s)"
  have d: "Inv ?d (next_id s)" using assms by (simp add: fieldClosed_def)
  show ?thesis
  proof (cases "querySelector (hasClass (ascii ''error-message'')) p ?d")
    case None
    with d show ?thesis by (simp add: clearError_def)
  next
    case (Some x)
    then have "x \<in> set (nodes ?d)" and "hasClass (ascii ''error-message'') (el x)"
      by (rule querySelector_in)+
    with d assms(1) have "Inv (removeNode (nid x) ?d) (next_id s)"
      unfolding fieldClosed_def by blast
    with Some show ?thesis by (simp add: clearError_def)
  qed
qed

lemma fieldClosed_showError:
  assumes "fieldClosed Inv" and "Inv (doc s) (next_id s)"
  shows "Inv (doc (showError f p msg s)) (next_id (showError f p msg s))"
proof -
  let ?d = "modify f (classList_add [ascii ''error'', ascii ''border-red-500'']) (doc s)"
  have d: "Inv ?d (next_id s)" using assms by (simp add: fieldClosed_def)
  with assms(1) have "Inv (appendChild p (Elem (next_id s) (newDiv errorMessageClasses (FieldError msg)) []) ?d)
      (Suc (next_id s))"
    unfolding fieldClosed_def by blast
  then show ?thesis by (simp add: showError_def)
qed

lemma validateField_cases:
  assumes "validateField f s = Inr (ok, s')"
  obtains n p where "getNode f (doc s) = Some n" and "parentNode f (doc s) = Some p"
    and "ok = fst (checkField (el n))"
    and "s' = (if ok then clearError f p s
               else showError f p (snd (checkField (el n))) (clearError f p s))"
  using assms
  by (auto simp: validateField_def Let_def split: option.splits prod.splits)

lemma fieldClosed_validateField:
  assumes "fieldClosed Inv" and "Inv (doc s) (next_id s)" and "validateField f s = Inr (ok, s')"
  shows "Inv (doc s') (next_id s')"
proof -
  from assms(3) obtain n p where
    s': "s' = (if ok then clearError f p s
               else showError f p (snd (checkField (el n))) (clearError f p s))"
    by (rule validateField_cases)
  have "Inv (doc (clearError f p s)) (next_id (clearError f p s))"
    using assms(1,2) by (rule fieldClosed_clearError)
  then show ?thesis
    unfolding s' using fieldClosed_showError [OF assms(1)] by simp
qed

lemma fieldClosed_validateFields:
  assumes "fieldClosed Inv"
  shows "Inv (doc s) (next_id s) \<Longrightarrow>
     (case validateFields fs s of Inl (e, s') \<Rightarrow> Inv (doc s') (next_id s')
                                | Inr (ok, s') \<Rightarrow> Inv (doc s') (next_id s'))"
proof (induction fs arbitrary: s)
  case Nil
  then show ?case by simp
next
  case (Cons f fs)
  show ?case
  proof (cases "validateField f s")
    case (Inl e)
    with Cons.prems show ?thesis by simp
  next
    case (Inr r)
    obtain ok s1 where r: "r = (ok, s1)" by (cases r)
    with Inr assms Cons.prems have "Inv (doc s1) (next_id s1)"
      using fieldClosed_validateField by blast
    from Cons.IH [OF this] Inr r show ?thesis
      by (auto split: sum.splits prod.splits)
  qed
qed

lemma fieldClosed_blurListener:
  assumes "fieldClosed Inv" and "Inv (doc s) (next_id s)"
  shows "Inv (doc (blurListener f s)) (next_id (blurListener f s))"
  using assms fieldClosed_validateField [OF assms(1,2)]
  by (auto simp: blurListener_def split: sum.splits prod.splits)

lemma fieldClosed_inputListener:
  assumes "fieldClosed Inv" and "Inv (doc s) (next_id s)"
  shows "Inv (doc (inputListener f s)) (next_id (inputListener f s))"
  using assms fieldClosed_blurListener [OF assms]
  by (auto simp: inputListener_def split: option.splits)

lemma fieldClosed_changeListener:
  assumes "fieldClosed Inv" and "Inv (doc s) (next_id s)"
  shows "Inv (doc (changeListener f s)) (next_id (changeListener f s))"
  using assms fieldClosed_blurListener [OF assms]
  by (auto simp: changeListener_def split: option.splits)

text \<open>scalars\<close>

lemma clearError_scalars [simp]:
  "timers (clearError f p s) = timers s" "now (clearError f p s) = now s"
  "next_id (clearError f p s) = next_id s" "form (clearError f p s) = form s"
  by (simp_all add: clearError_def Let_def form_def split: option.splits)

lemma showError_scalars [simp]:
  "timers (showError f p m s) = timers s" "now (showError f p m s) = now s"
  "next_id (showError f p m s) = Suc (next_id s)" "form (showError f p m s) = form s"
  by (simp_all add: showError_def Let_def form_def)

lemma validateField_scalars:
  assumes "validateField f s = Inr (ok, s')"
  shows "timers s' = timers s" and "now s' = now s" and "form s' = form s"
    and "next_id s \<le> next_id s'"
  using assms by (auto elim!: validateField_cases split: if_splits)

lemma validateFields_scalars:
  "(case validateFields fs s of
      Inl (e, s') \<Rightarrow> timers s' = timers s \<and> now s' = now s \<and> form s' = form s \<and> next_id s \<le> next_id s'
    | Inr (ok, s') \<Rightarrow> timers s' = timers s \<and> now s' = now s \<and> form s' = form s \<and> next_id s \<le> next_id s')"
proof (induction fs arbitrary: s)
  case Nil
  show ?case by simp
next
  case (Cons f fs)
  show ?case
  proof (cases "validateField f s")
    case (Inl e)
    then show ?thesis by simp
  next
    case (Inr r)
    obtain ok s1 where r: "r = (ok, s1)" by (cases r)
    from Inr r have "timers s1 = timers s \<and> now s1 = now s \<and> form s1 = form s \<and> next_id s \<le> next_id s1"
      using validateField_scalars by blast
    with Cons.IH [of s1] Inr r show ?thesis
      by (auto split: sum.splits prod.splits)
  qed
qed

lemma setTimeout_sel [simp]:
  "doc (setTimeout k t s) = doc s" "next_id (setTimeout k t s) = next_id s"
  "now (setTimeout k t s) = now s" "timers (setTimeout k t s) = timers s @ [(now s + t, k)]"
  "form (setTimeout k t s) = form s"
  by (simp_all add: setTimeout_def form_def)

lemma submitListener_preserves:
  assumes "fieldClosed Inv" and "editClosed Inv" and "Inv (doc s) (next_id s)"
  shows "Inv (doc (snd (submitListener s))) (next_id (snd (submitListener s)))"
proof -
  have v: "case validateForm (form s) s of Inl (e, s') \<Rightarrow> Inv (doc s') (next_id s')
                                | Inr (ok, s') \<Rightarrow> Inv (doc s') (next_id s')"
    unfolding validateForm_def using assms(1,3) by (rule fieldClosed_validateFields)
  show ?thesis
  proof (cases "validateForm (form s) s")
    case (Inl a)
    with v show ?thesis by (auto simp: submitListener_def split: prod.splits)
  next
    case (Inr r)
    obtain ok s1 where r: "r = (ok, s1)" by (cases r)
    with v Inr have s1: "Inv (doc s1) (next_id s1)" by simp
    then have "Inv (modify b (\<lambda>e. e\<lparr>disabled := True, innerHTML := SpinnerLabel\<rparr>) (doc s1)) (next_id s1)" for b
      using assms(2) unfolding editClosed_def by blast
    with s1 Inr r show ?thesis
      by (auto simp: submitListener_def Let_def split: option.splits)
  qed
qed

lemma runTask_RemoveMessage_preserves:
  assumes "removalClosed M Inv" and "Inv (doc s) (next_id s)" and "m \<notin> M"
  shows "Inv (doc (runTask (RemoveMessage m) s)) (next_id (runTask (RemoveMessage m) s))"
  using assms by (auto simp: removalClosed_def)

lemma quiet_step:
  assumes "fieldClosed Inv" and "editClosed Inv" and "removalClosed M Inv"
    and "Inv (doc s) (next_id s)" and "step ev s = Some s'"
    and "\<And>k. fired ev s = Some k \<Longrightarrow> \<exists>m. k = RemoveMessage m \<and> m \<notin> M"
  shows "Inv (doc s') (next_id s')"
proof (cases ev)
  case Submit
  with assms(5) have "s' = snd (submitListener s)" by (simp split: if_splits)
  then show ?thesis using submitListener_preserves [OF assms(1,2,4)] by simp
next
  case (Blur f)
  with assms(5) have "s' = blurListener f s" by (simp split: if_splits)
  then show ?thesis using fieldClosed_blurListener [OF assms(1,4)] by simp
next
  case (InputEvent f)
  with assms(5) have "s' = inputListener f s" by (simp split: if_splits)
  then show ?thesis using fieldClosed_inputListener [OF assms(1,4)] by simp
next
  case (Change f)
  with assms(5) have "s' = changeListener f s" by (simp split: if_splits)
  then show ?thesis using fieldClosed_changeListener [OF assms(1,4)] by simp
next
  case (UserSets f v c)
  with assms(5) have "s' = s\<lparr>doc := modify f (\<lambda>e. e\<lparr>fieldValue := v, checked := c\<rparr>) (doc s)\<rparr>"
    by (simp split: if_splits)
  then show ?thesis using assms(2,4) by (simp add: editClosed_def)
next
  case (Wait d)
  with assms(5) have "s' = s\<lparr>now := now s + d\<rparr>" by (simp split: if_splits)
  then show ?thesis using assms(4) by simp
next
  case Fire
  with assms(5) obtain t k where f: "find (\<lambda>(t, k). t \<le> now s) (timers s) = Some (t, k)"
    and s': "s' = runTask k (s\<lparr>timers := remove1 (t, k) (timers s)\<rparr>)"
    by (auto split: option.splits)
  from f Fire have "fired ev s = Some k" by (simp add: fired_def)
  then obtain m where m: "k = RemoveMessage m" "m \<notin> M" using assms(6) by blast
  have "Inv (doc (s\<lparr>timers := remove1 (t, k) (timers s)\<rparr>)) (next_id (s\<lparr>timers := remove1 (t, k) (timers s)\<rparr>))"
    using assms(4) by simp
  from runTask_RemoveMessage_preserves [OF assms(3) this m(2)] show ?thesis
    unfolding s' m(1) .
qed

lemma any_step:
  assumes "fieldClosed Inv" and "editClosed Inv" and "removalClosed {} Inv" and "successClosed Inv"
    and "Inv (doc s) (next_id s)" and "step ev s = Some s'"
  shows "Inv (doc s') (next_id s')"
proof (cases "\<exists>b L. fired ev s = Some (CallHandleFormSuccess b L)")
  case False
  have "\<exists>m. k = RemoveMessage m \<and> m \<notin> {}" if "fired ev s = Some k" for k
    using that False by (cases k) simp_all
  with assms show ?thesis using quiet_step [of Inv "{}" s ev s'] by blast
next
  case True
  then obtain b L where k: "fired ev s = Some (CallHandleFormSuccess b L)" by blast
  then have ev: "ev = Fire" by (cases ev) (simp_all add: fired_def)
  with assms(6) k obtain t where
    s': "s' = runTask (CallHandleFormSuccess b L) (s\<lparr>timers := remove1 (t, CallHandleFormSuccess b L) (timers s)\<rparr>)"
    by (auto simp: fired_def split: option.splits)
  let ?s = "s\<lparr>timers := remove1 (t, CallHandleFormSuccess b L) (timers s)\<rparr>"
  have "Inv (doc ?s) (next_id ?s)" using assms(5) by simp
  with assms(4) have "Inv (doc (handleFormSuccess (form ?s) b L ?s)) (next_id (handleFormSuccess (form ?s) b L ?s))"
    unfolding successClosed_def by blast
  then show ?thesis unfolding s' by simp
qed

lemma any_run:
  assumes "fieldClosed Inv" and "editClosed Inv" and "removalClosed {} Inv" and "successClosed Inv"
  shows "Inv (doc s) (next_id s) \<Longrightarrow> run evs s = Some s' \<Longrightarrow> Inv (doc s') (next_id s')"
proof (induction evs arbitrary: s)
  case Nil
  then show ?case by simp
next
  case (Cons ev evs)
  from Cons.prems(2) obtain s1 where s1: "step ev s = Some s1" "run evs s1 = Some s'"
    by (auto split: option.splits)
  from any_step [OF assms Cons.prems(1) s1(1)] have "Inv (doc s1) (next_id s1)" .
  from Cons.IH [OF this s1(2)] show ?case .
qed

subsection \<open>Classes\<close>

lemma hasClass_classList_remove [simp]:
  "hasClass c (classList_remove cs e) \<longleftrightarrow> hasClass c e \<and> c \<notin> set cs"
  by (auto simp: hasClass_def classList_remove_def)

lemma set_foldl_add:
  "set (foldl (\<lambda>l c. if c \<in> set l then l else l @ [c]) l0 cs) = set l0 \<union> set cs"
  by (induction cs arbitrary: l0) auto

lemma hasClass_classList_add [simp]:
  "hasClass c (classList_add cs e) \<longleftrightarrow> hasClass c e \<or> c \<in> set cs"
  by (auto simp: hasClass_def classList_add_def set_foldl_add)

lemma hasClass_newDiv [simp]: "hasClass c (newDiv cs m) \<longleftrightarrow> c \<in> set cs"
  by (simp add: hasClass_def newDiv_def)

lemma hasClass_updates [simp]:
  "hasClass c (e\<lparr>fieldValue := v, checked := b\<rparr>) = hasClass c e"
  "hasClass c (e\<lparr>disabled := b, innerHTML := L\<rparr>) = hasClass c e"
  "hasClass c (resetControl e) = hasClass c e"
  by (simp_all add: hasClass_def resetControl_def)

lemma class_names:
  "ascii ''form-message'' \<noteq> ascii ''error''" "ascii ''form-message'' \<noteq> ascii ''border-red-500''"
  "ascii ''bg-red-50'' \<noteq> ascii ''error''" "ascii ''bg-red-50'' \<noteq> ascii ''border-red-500''"
  "ascii ''error-message'' \<noteq> ascii ''error''" "ascii ''error-message'' \<noteq> ascii ''border-red-500''"
  "ascii ''form-message'' \<noteq> ascii ''error-message''"
  "ascii ''form-message'' \<notin> set errorMessageClasses"
  "ascii ''bg-red-50'' \<notin> set errorMessageClasses"
  "ascii ''bg-red-50'' \<notin> set successClasses"
  "ascii ''error-message'' \<notin> set successClasses"
  "ascii ''error'' \<notin> set successClasses"
  "ascii ''form-message'' \<in> set successClasses"
  "ascii ''form-message'' \<in> set errorClasses"
  "ascii ''bg-red-50'' \<in> set errorClasses"
  "ascii ''error-message'' \<in> set errorMessageClasses"
  by (simp_all add: errorMessageClasses_def successClasses_def errorClasses_def ascii_def)

subsection \<open>The success handler, operation by operation\<close>

lemma allNodes_removeExistingMessage:
  "allNodes R d \<Longrightarrow> allNodes R (removeExistingMessage frm d)"
  by (simp add: removeExistingMessage_def allNodes_removeNode split: option.splits)

lemma nid_removeExistingMessage [simp]: "nid (removeExistingMessage frm d) = nid d"
  by (simp add: removeExistingMessage_def split: option.splits)

lemma allNodes_handleFormSuccess:
  assumes "allNodes R (doc s)"
    and "\<And>i e. R i e \<Longrightarrow> R i (resetControl e)"
    and "\<And>i e. R i e \<Longrightarrow> R i (classList_remove [ascii ''error'', ascii ''border-red-500''] e)"
    and "\<And>e. R b e \<Longrightarrow> R b (e\<lparr>disabled := False, innerHTML := L\<rparr>)"
    and "R (next_id s) (newDiv successClasses SuccessBanner)"
  shows "allNodes R (doc (handleFormSuccess frm b L s))"
proof -
  let ?d1 = "removeExistingMessage frm (doc s)"
  let ?d2 = "insertFirst frm (Elem (next_id s) (newDiv successClasses SuccessBanner) []) ?d1"
  let ?d3 = "forEach (querySelectorAll (\<lambda>e. isControl (kind e)) frm ?d2)
                 (\<lambda>i. modify i resetControl) ?d2"
  let ?d4 = "forEach (querySelectorAll (hasClass (ascii ''error'')) frm ?d3)
                 (\<lambda>i. modify i (classList_remove [ascii ''error'', ascii ''border-red-500''])) ?d3"
  let ?d5 = "forEach (querySelectorAll (hasClass (ascii ''error-message'')) frm ?d4) removeNode ?d4"
  have "allNodes R ?d1" using assms(1) by (rule allNodes_removeExistingMessage)
  then have "allNodes R ?d2"
    by (rule allNodes_insertFirst) (simp add: allNodes_Elem assms(5))
  then have "allNodes R ?d3"
    by (rule allNodes_forEach) (simp add: allNodes_modify assms(2))
  then have "allNodes R ?d4"
    by (rule allNodes_forEach) (simp add: allNodes_modify assms(3))
  then have "allNodes R ?d5"
    by (rule allNodes_forEach) (simp add: allNodes_removeNode)
  then have "allNodes R (modify b (\<lambda>e. e\<lparr>disabled := False, innerHTML := L\<rparr>) ?d5)"
    by (rule allNodes_modify) (simp add: assms(4))
  then show ?thesis by (simp add: handleFormSuccess_def Let_def)
qed

lemma handleFormSuccess_scalars [simp]:
  "now (handleFormSuccess frm b L s) = now s"
  "next_id (handleFormSuccess frm b L s) = Suc (next_id s)"
  "timers (handleFormSuccess frm b L s) = timers s @ [(now s + 8000, RemoveMessage (next_id s))]"
  by (simp_all add: handleFormSuccess_def Let_def)

lemma form_handleFormSuccess [simp]: "form (handleFormSuccess frm b L s) = form s"
  by (simp add: handleFormSuccess_def Let_def form_def nid_forEach)

subsection \<open>No error banner\<close>

lemma noErrorBanner_allNodes: "noErrorBanner s \<longleftrightarrow> allNodes (\<lambda>i e. \<not> isErrorBanner e) (doc s)"
  by (simp add: noErrorBanner_def allNodes_def)

lemma noErrorBanner_closed:
  "fieldClosed (\<lambda>d nx. allNodes (\<lambda>i e. \<not> isErrorBanner e) d)"
  "editClosed (\<lambda>d nx. allNodes (\<lambda>i e. \<not> isErrorBanner e) d)"
  "removalClosed {} (\<lambda>d nx. allNodes (\<lambda>i e. \<not> isErrorBanner e) d)"
  "successClosed (\<lambda>d nx. allNodes (\<lambda>i e. \<not> isErrorBanner e) d)"
proof -
  show "fieldClosed (\<lambda>d nx. allNodes (\<lambda>i e. \<not> isErrorBanner e) d)"
    unfolding fieldClosed_def
    by (auto intro!: allNodes_modify allNodes_removeNode allNodes_appendChild
        simp: isErrorBanner_def class_names allNodes_Elem)
  show "editClosed (\<lambda>d nx. allNodes (\<lambda>i e. \<not> isErrorBanner e) d)"
    unfolding editClosed_def by (auto intro!: allNodes_modify simp: isErrorBanner_def)
  show "removalClosed {} (\<lambda>d nx. allNodes (\<lambda>i e. \<not> isErrorBanner e) d)"
    unfolding removalClosed_def by (auto intro!: allNodes_removeNode)
  show "successClosed (\<lambda>d nx. allNodes (\<lambda>i e. \<not> isErrorBanner e) d)"
    unfolding successClosed_def
    by (auto intro!: allNodes_handleFormSuccess simp: isErrorBanner_def class_names)
qed

lemma noErrorBanner_run:
  assumes "noErrorBanner s" and "run evs s = Some s'"
  shows "noErrorBanner s'"
  using any_run [OF noErrorBanner_closed _ assms(2)] assms(1)
  by (simp add: noErrorBanner_allNodes)

subsection \<open>Callbacks run when they are due\<close>

lemma submitListener_scalars:
  "now (snd (submitListener s)) = now s"
  "timers (snd (submitListener s)) = timers s \<or>
   (\<exists>b L. timers (snd (submitListener s)) = timers s @ [(now s + 2000, CallHandleFormSuccess b L)])"
proof -
  have v: "case validateForm (form s) s of
      Inl (e, s') \<Rightarrow> timers s' = timers s \<and> now s' = now s \<and> form s' = form s \<and> next_id s \<le> next_id s'
    | Inr (ok, s') \<Rightarrow> timers s' = timers s \<and> now s' = now s \<and> form s' = form s \<and> next_id s \<le> next_id s'"
    unfolding validateForm_def by (rule validateFields_scalars)
  show "now (snd (submitListener s)) = now s"
    using v by (auto simp: submitListener_def Let_def split: sum.splits prod.splits option.splits)
  show "timers (snd (submitListener s)) = timers s \<or>
   (\<exists>b L. timers (snd (submitListener s)) = timers s @ [(now s + 2000, CallHandleFormSuccess b L)])"
    using v by (auto simp: submitListener_def Let_def split: sum.splits prod.splits option.splits)
qed

lemma blurListener_scalars [simp]:
  "now (blurListener f s) = now s" "timers (blurListener f s) = timers s"
  using validateField_scalars [of f s]
  by (auto simp: blurListener_def split: sum.splits prod.splits)

lemma inputListener_scalars [simp]:
  "now (inputListener f s) = now s" "timers (inputListener f s) = timers s"
  by (auto simp: inputListener_def split: option.splits)

lemma changeListener_scalars [simp]:
  "now (changeListener f s) = now s" "timers (changeListener f s) = timers s"
  by (auto simp: changeListener_def split: option.splits)

lemma timersAhead_step:
  assumes "timersAhead s" and "step ev s = Some s'"
  shows "timersAhead s'"
proof (cases ev)
  case Submit
  with assms(2) have "s' = snd (submitListener s)" by (simp split: if_splits)
  with assms(1) submitListener_scalars [of s] show ?thesis
    by (auto simp: timersAhead_def)
next
  case (Wait d)
  with assms(2) have "s' = s\<lparr>now := now s + d\<rparr>" "list_all (\<lambda>(t, k). now s + d \<le> t) (timers s)"
    by (simp_all split: if_splits)
  then show ?thesis by (simp add: timersAhead_def)
next
  case Fire
  with assms(2) obtain t k where s': "s' = runTask k (s\<lparr>timers := remove1 (t, k) (timers s)\<rparr>)"
    by (auto split: option.splits)
  have "list_all (\<lambda>(t, k). now s \<le> t) (remove1 (t, k) (timers s))"
    using assms(1) unfolding timersAhead_def list_all_iff by (auto dest: notin_set_remove1)
  then show ?thesis unfolding s' timersAhead_def by (cases k) simp_all
qed (use assms in \<open>auto simp: timersAhead_def split: if_splits\<close>)

lemma timersAhead_run:
  "timersAhead s \<Longrightarrow> run evs s = Some s' \<Longrightarrow> timersAhead s'"
proof (induction evs arbitrary: s)
  case Nil
  then show ?case by simp
next
  case (Cons ev evs)
  then show ?case using timersAhead_step by (auto split: option.splits)
qed

lemma find_SomeD: "find P xs = Some x \<Longrightarrow> x \<in> set xs \<and> P x"
  by (induction xs) (auto split: if_splits)

lemma due_exactly:
  assumes "timersAhead s" and "find (\<lambda>(t, k). t \<le> now s) (timers s) = Some (t, k)"
  shows "t = now s"
proof -
  from assms(2) have "(t, k) \<in> set (timers s)" and "t \<le> now s"
    by (auto dest: find_SomeD)
  with assms(1) show ?thesis by (auto simp: timersAhead_def list_all_iff)
qed

subsection \<open>Counting below the root\<close>

lemma cnt_dcnt: "cnt R d = (if R (nid d) (el d) then 1 else 0) + dcnt R d"
  by (cases d) (simp add: cnt_Elem dcnt_def)

lemma dcnt_descendants: "dcnt R d = length (filter (\<lambda>n. R (nid n) (el n)) (descendants d))"
  by (simp add: dcnt_def descendants_def length_filter_concat cnt_def [abs_def] comp_def)

lemma length_querySelectorAll_root:
  "length (querySelectorAll sel (nid d) d) = dcnt (\<lambda>i. sel) d"
  by (simp add: querySelectorAll_def dcnt_descendants)

lemma length_formMessages:
  "length (formMessages s) = dcnt (\<lambda>i. hasClass (ascii ''form-message'')) (doc s)"
  by (simp add: formMessages_def form_def length_querySelectorAll_root)

lemma dcnt_modify:
  assumes "\<And>e. R f (g e) = R f e"
  shows "dcnt R (modify f g d) = dcnt R d"
proof -
  have m: "map (cnt R \<circ> modify f g) (kids d) = map (cnt R) (kids d)"
    by (intro map_cong refl) (simp add: cnt_modify assms)
  show ?thesis by (simp add: dcnt_def kids_modify m)
qed

lemma dcnt_removeNode_le: "dcnt R (removeNode x d) \<le> dcnt R d"
  unfolding dcnt_def kids_removeNode map_map
  by (intro sum_list_filter_le) (simp add: cnt_removeNode_le)

lemma dcnt_removeNode_less:
  assumes "n \<in> set (descendants d)" and "nid n = x" and "R x (el n)"
  shows "dcnt R (removeNode x d) < dcnt R d"
  using cnt_removeNode_less [where R = R, OF assms] by (simp add: cnt_dcnt)

lemma dcnt_appendChild:
  "dcnt R (appendChild p new d) = dcnt R d + cnt (\<lambda>i e. i = p) d * cnt R new"
  using cnt_appendChild [of R p new d] by (simp add: cnt_dcnt)

lemma dcnt_insertFirst:
  "dcnt R (insertFirst p new d) = dcnt R d + cnt (\<lambda>i e. i = p) d * cnt R new"
  using cnt_insertFirst [of R p new d] by (simp add: cnt_dcnt)

lemma cnt_leaf: "cnt R (Elem i e []) = (if R i e then 1 else 0)"
  by (simp add: cnt_Elem)

lemma cnt_fresh: "allNodes (\<lambda>i e. i < nx) d \<Longrightarrow> cnt (\<lambda>j e. j = nx) d = 0"
  by (auto simp: cnt_def allNodes_def filter_empty_conv)

lemma cnt_root_pos: "0 < cnt (\<lambda>j e. j = nid d) d"
  by (rule cnt_pos [of d]) (simp_all add: nodes_self)

lemma allNodes_mono: "allNodes R d \<Longrightarrow> (\<And>i e. R i e \<Longrightarrow> Q i e) \<Longrightarrow> allNodes Q d"
  by (simp add: allNodes_def)

lemma forEach_preserves:
  assumes "P d" and "\<And>i t. P t \<Longrightarrow> P (f i t)"
  shows "P (forEach xs f d)"
  using assms(1) unfolding forEach_def
  by (induction xs arbitrary: d) (simp_all add: assms(2))

subsection \<open>Distinct identities, by counting\<close>

lemma distinct_length_filter:
  "distinct xs \<longleftrightarrow> (\<forall>x. length (filter (\<lambda>y. y = x) xs) \<le> 1)"
proof (induction xs)
  case Nil
  show ?case by simp
next
  case (Cons a xs)
  show ?case
  proof
    assume d: "distinct (a # xs)"
    then have "filter (\<lambda>y. y = a) xs = []" by (auto simp: filter_empty_conv)
    with d Cons show "\<forall>x. length (filter (\<lambda>y. y = x) (a # xs)) \<le> 1" by auto
  next
    assume h: "\<forall>x. length (filter (\<lambda>y. y = x) (a # xs)) \<le> 1"
    then have "length (filter (\<lambda>y. y = a) (a # xs)) \<le> 1" by blast
    then have "filter (\<lambda>y. y = a) xs = []" by simp
    then have a: "a \<notin> set xs" by (auto simp: filter_empty_conv)
    have "length (filter (\<lambda>y. y = x) xs) \<le> 1" for x
      using h [rule_format, of x] by (simp split: if_splits)
    with Cons a show "distinct (a # xs)" by simp
  qed
qed

lemma distinct_ids_cnt:
  "distinct (map nid (nodes d)) \<longleftrightarrow> (\<forall>i. cnt (\<lambda>j e. j = i) d \<le> 1)"
  by (simp add: distinct_length_filter cnt_def filter_map comp_def)

lemma tidy_iff:
  "tidy (doc s) (next_id s) \<longleftrightarrow> wellFormed s \<and> length (formMessages s) \<le> 1"
  by (auto simp: tidy_def wellFormed_def distinct_ids_cnt allNodes_def length_formMessages)

subsection \<open>Preservation\<close>

lemma tidy_modify:
  assumes "tidy d nx" and "\<And>e. hasClass (ascii ''form-message'') (g e) = hasClass (ascii ''form-message'') e"
  shows "tidy (modify f g d) nx"
  using assms by (simp add: tidy_def cnt_modify dcnt_modify allNodes_modify)

lemma tidy_removeNode: "tidy d nx \<Longrightarrow> tidy (removeNode x d) nx"
  unfolding tidy_def
  using cnt_removeNode_le [of _ x d] dcnt_removeNode_le [of _ x d]
  by (auto intro: allNodes_removeNode order_trans)

lemma tidy_add:
  assumes "tidy d nx" and "d' = appendChild p (Elem nx e []) d \<or> d' = insertFirst p (Elem nx e []) d"
    and "dcnt (\<lambda>i. hasClass (ascii ''form-message'')) d +
           cnt (\<lambda>j e. j = p) d * (if hasClass (ascii ''form-message'') e then 1 else 0) \<le> 1"
  shows "tidy d' (Suc nx)"
proof -
  have fresh: "cnt (\<lambda>j e. j = nx) d = 0" using assms(1) by (simp add: tidy_def cnt_fresh)
  have p: "cnt (\<lambda>j e. j = p) d \<le> 1" using assms(1) by (simp add: tidy_def)
  have c: "cnt R d' = cnt R d + cnt (\<lambda>j e. j = p) d * cnt R (Elem nx e [])" for R
    using assms(2) by (auto simp: cnt_appendChild cnt_insertFirst)
  have dc: "dcnt R d' = dcnt R d + cnt (\<lambda>j e. j = p) d * cnt R (Elem nx e [])" for R
    using assms(2) by (auto simp: dcnt_appendChild dcnt_insertFirst)
  have "cnt (\<lambda>j e. j = i) d' \<le> 1" for i
  proof (cases "i = nx")
    case True
    with fresh p show ?thesis by (simp add: c cnt_leaf)
  next
    case False
    with assms(1) show ?thesis by (simp add: c cnt_leaf tidy_def)
  qed
  moreover have "allNodes (\<lambda>i e. i < Suc nx) d'"
  proof -
    have old: "allNodes (\<lambda>i e. i < Suc nx) d"
      using assms(1) by (auto simp: tidy_def intro: allNodes_mono)
    have new: "allNodes (\<lambda>i e. i < Suc nx) (Elem nx e [])" by (simp add: allNodes_Elem)
    from assms(2) old new show ?thesis
      by (auto intro: allNodes_appendChild allNodes_insertFirst)
  qed
  moreover have "dcnt (\<lambda>i. hasClass (ascii ''form-message'')) d' \<le> 1"
    using assms(3) by (simp add: dc cnt_leaf)
  ultimately show ?thesis by (simp add: tidy_def)
qed

lemma tidy_fieldClosed: "fieldClosed tidy"
  unfolding fieldClosed_def
proof (intro conjI allI impI)
  fix d nx f
  assume "tidy d nx"
  then show "tidy (modify f (classList_remove [ascii ''error'', ascii ''border-red-500'']) d) nx"
    by (rule tidy_modify) (simp add: class_names)
  from \<open>tidy d nx\<close> show "tidy (modify f (classList_add [ascii ''error'', ascii ''border-red-500'']) d) nx"
    by (rule tidy_modify) (simp add: class_names)
next
  fix d nx x
  assume "tidy d nx \<and> x \<in> set (nodes d) \<and> hasClass (ascii ''error-message'') (el x)"
  then show "tidy (removeNode (nid x) d) nx" by (simp add: tidy_removeNode)
next
  fix d nx p msg
  assume t: "tidy d nx"
  show "tidy (appendChild p (Elem nx (newDiv errorMessageClasses (FieldError msg)) []) d) (Suc nx)"
    by (rule tidy_add [OF t disjI1 [OF refl]]) (use t in \<open>simp add: class_names tidy_def\<close>)
qed

lemma tidy_editClosed: "editClosed tidy"
  unfolding editClosed_def by (auto intro: tidy_modify)

lemma tidy_removalClosed: "removalClosed {} tidy"
  unfolding removalClosed_def by (auto intro: tidy_removeNode)

lemma dcnt_zero_iff: "dcnt R d = 0 \<longleftrightarrow> (\<forall>n\<in>set (descendants d). \<not> R (nid n) (el n))"
  by (simp add: dcnt_descendants filter_empty_conv)

lemma querySelector_root:
  "querySelector sel (nid d) d = find (\<lambda>m. sel (el m)) (descendants d)"
  by (simp add: querySelector_def)

lemma removeExistingMessage_tidy:
  assumes "tidy d nx"
  shows "tidy (removeExistingMessage (nid d) d) nx"
    and "dcnt (\<lambda>i. hasClass (ascii ''form-message'')) (removeExistingMessage (nid d) d) = 0"
proof -
  let ?R = "\<lambda>i. hasClass (ascii ''form-message'')"
  show "tidy (removeExistingMessage (nid d) d) nx"
    using assms by (simp add: removeExistingMessage_def tidy_removeNode split: option.splits)
  show "dcnt ?R (removeExistingMessage (nid d) d) = 0"
  proof (cases "find (\<lambda>m. hasClass (ascii ''form-message'') (el m)) (descendants d)")
    case None
    then have "dcnt ?R d = 0" by (simp add: dcnt_zero_iff find_None_iff)
    with None show ?thesis by (simp add: removeExistingMessage_def querySelector_root)
  next
    case (Some x)
    then have "x \<in> set (descendants d)" "hasClass (ascii ''form-message'') (el x)"
      by (auto dest: find_SomeD)
    then have "dcnt ?R (removeNode (nid x) d) < dcnt ?R d"
      by (intro dcnt_removeNode_less [of x]) simp_all
    moreover have "dcnt ?R d \<le> 1" using assms by (simp add: tidy_def)
    ultimately have "dcnt ?R (removeNode (nid x) d) = 0" by simp
    with Some show ?thesis by (simp add: removeExistingMessage_def querySelector_root)
  qed
qed

lemma tidy_root_once: "tidy d nx \<Longrightarrow> cnt (\<lambda>j e. j = nid d) d = 1"
  using cnt_root_pos [of d] by (simp add: tidy_def le_antisym Suc_leI)

lemma tidy_insert_banner:
  assumes "tidy d nx" and "ascii ''form-message'' \<in> set cs"
  shows "tidy (insertFirst (nid d) (Elem nx (newDiv cs m) []) (removeExistingMessage (nid d) d)) (Suc nx)"
    and "dcnt (\<lambda>i. hasClass (ascii ''form-message''))
           (insertFirst (nid d) (Elem nx (newDiv cs m) []) (removeExistingMessage (nid d) d)) = 1"
proof -
  let ?d1 = "removeExistingMessage (nid d) d"
  have t1: "tidy ?d1 nx" and z: "dcnt (\<lambda>i. hasClass (ascii ''form-message'')) ?d1 = 0"
    using removeExistingMessage_tidy [OF assms(1)] by simp_all
  have once: "cnt (\<lambda>j e. j = nid d) ?d1 = 1"
    using tidy_root_once [OF t1] by simp
  show "tidy (insertFirst (nid d) (Elem nx (newDiv cs m) []) ?d1) (Suc nx)"
    by (rule tidy_add [OF t1 disjI2 [OF refl]]) (simp add: z once)
  show "dcnt (\<lambda>i. hasClass (ascii ''form-message''))
           (insertFirst (nid d) (Elem nx (newDiv cs m) []) ?d1) = 1"
    using assms(2) by (simp add: dcnt_insertFirst z once cnt_leaf)
qed

lemma handleFormSuccess_tidy:
  assumes "tidy (doc s) (next_id s)"
  shows "tidy (doc (handleFormSuccess (form s) b L s)) (next_id (handleFormSuccess (form s) b L s))"
    and "dcnt (\<lambda>i. hasClass (ascii ''form-message'')) (doc (handleFormSuccess (form s) b L s)) \<le> 1"
proof -
  let ?T = "\<lambda>d. tidy d (Suc (next_id s))"
  let ?frm = "nid (doc s)"
  let ?d2 = "insertFirst ?frm (Elem (next_id s) (newDiv successClasses SuccessBanner) [])
               (removeExistingMessage ?frm (doc s))"
  let ?d3 = "forEach (querySelectorAll (\<lambda>e. isControl (kind e)) ?frm ?d2)
                 (\<lambda>i. modify i resetControl) ?d2"
  let ?d4 = "forEach (querySelectorAll (hasClass (ascii ''error'')) ?frm ?d3)
                 (\<lambda>i. modify i (classList_remove [ascii ''error'', ascii ''border-red-500''])) ?d3"
  let ?d5 = "forEach (querySelectorAll (hasClass (ascii ''error-message'')) ?frm ?d4) removeNode ?d4"
  have "?T ?d2" by (rule tidy_insert_banner [OF assms]) (simp add: class_names)
  then have "?T ?d3" by (rule forEach_preserves) (simp add: tidy_modify)
  then have "?T ?d4" by (rule forEach_preserves) (simp add: tidy_modify class_names)
  then have "?T ?d5" by (rule forEach_preserves) (simp add: tidy_removeNode)
  then have "?T (modify b (\<lambda>e. e\<lparr>disabled := False, innerHTML := L\<rparr>) ?d5)"
    by (rule tidy_modify) simp
  then show "tidy (doc (handleFormSuccess (form s) b L s)) (next_id (handleFormSuccess (form s) b L s))"
    by (simp add: handleFormSuccess_def Let_def form_def)
  then show "dcnt (\<lambda>i. hasClass (ascii ''form-message'')) (doc (handleFormSuccess (form s) b L s)) \<le> 1"
    by (simp add: tidy_def)
qed

lemma tidy_successClosed: "successClosed tidy"
  unfolding successClosed_def using handleFormSuccess_tidy(1) by blast

lemma tidy_run:
  assumes "wellFormed s \<and> length (formMessages s) \<le> 1" and "run evs s = Some s'"
  shows "wellFormed s' \<and> length (formMessages s') \<le> 1"
  using any_run [OF tidy_fieldClosed tidy_editClosed tidy_removalClosed tidy_successClosed _ assms(2)]
    assms(1) by (simp add: tidy_iff)

lemma of_char_less_256: "(of_char c :: nat) < 256"
proof -
  have "(of_char c :: nat) mod 256 < 256" by simp
  then show ?thesis by simp
qed

lemma unat_ascii: "map unat (ascii s) = map of_char s"
proof -
  have "unat (of_nat (of_char c) :: 16 word) = of_char c" for c
  proof -
    have "(of_char c :: nat) < 65536"
      by (rule less_trans [OF of_char_less_256]) simp
    then show ?thesis by (simp add: unat_of_nat)
  qed
  then show ?thesis by (simp add: ascii_def)
qed

lemma ascii_eq_iff [simp]: "ascii a = ascii b \<longleftrightarrow> a = b"
proof
  assume "ascii a = ascii b"
  then have "map unat (ascii a) = map unat (ascii b)" by simp
  then have "map (of_char :: char \<Rightarrow> nat) a = map of_char b" by (simp only: unat_ascii)
  then show "a = b" by (simp add: inj_of_char)
qed simp

lemma ascii_Nil [simp]: "ascii [] = []" "ascii s = [] \<longleftrightarrow> s = []" "[] = ascii s \<longleftrightarrow> s = []"
  by (auto simp: ascii_def)

lemma lower_tags [simp]:
  "toLowerCase (ascii ''INPUT'') = ascii ''input''"
  "toLowerCase (ascii ''TEXTAREA'') = ascii ''textarea''"
  "toLowerCase (ascii ''SELECT'') = ascii ''select''"
  "toLowerCase (ascii ''BUTTON'') = ascii ''button''"
  by (simp_all add: toLowerCase_def ascii_def)

lemma trim_on [simp]: "trim (ascii ''on'') = ascii ''on''"
  by (simp add: trim_def ascii_def isWhiteSpace_def)

lemmas eval_defs = miniPage_def box_def control_def newDiv_def submitEnabled_def querySelector_def
  getNode_def descendants_def isSubmitButton_def submitListener_def validateForm_def
  querySelectorAll_def validateField_def parentNode_def checkField_def trimmedValue_def
  presenceCheck_def typeCheck_def lengthCheck_def clearError_def classList_remove_def
  hasClass_def setTimeout_def form_def handleFormSuccess_def removeExistingMessage_def
  forEach_def successClasses_def resetControl_def formMessages_def Let_def showError_def
  classList_add_def blurListener_def requiredMessage_def isField_def errorMessageClasses_def

lemma handleFormError_banner: "\<not> noErrorBanner (handleFormError (form s) c L msg s)"
proof -
  let ?new = "Elem (next_id s) (newDiv errorClasses (ErrorBanner msg)) []"
  let ?d1 = "removeExistingMessage (form s) (doc s)"
  let ?d2 = "insertFirst (form s) ?new ?d1"
  let ?g = "\<lambda>e. e\<lparr>disabled := False, innerHTML := L\<rparr>"
  have "kids ?d2 = ?new # map (insertFirst (form s) ?new) (kids ?d1)"
    by (simp add: kids_insertFirst form_def)
  then have "?new \<in> set (descendants ?d2)"
    by (simp add: descendants_iff nodes_self)
  then have "?new \<in> set (nodes ?d2)" by (simp add: set_nodes)
  then have "modify c ?g ?new \<in> modify c ?g ` set (nodes ?d2)"
    by (rule imageI)
  then have mem: "modify c ?g ?new \<in> set (nodes (modify c ?g ?d2))"
    by (simp only: nodes_modify set_map)
  have ban: "isErrorBanner (el (modify c ?g ?new))"
    by (simp add: isErrorBanner_def class_names)
  have d: "doc (handleFormError (form s) c L msg s) = modify c ?g ?d2"
    by (simp add: handleFormError_def Let_def)
  from mem ban show ?thesis
    unfolding noErrorBanner_def d by blast
qed

lemma submitListener_valid:
  assumes "validateForm (form s) s = Inr (True, s1)"
    and "querySelector isSubmitButton (form s1) (doc s1) = Some b"
  shows "\<exists>s2. submitListener s = (None, s2) \<and> now s2 = now s \<and>
           timers s2 = timers s @ [(now s + 2000, CallHandleFormSuccess (nid b) (innerHTML (el b)))]"
proof -
  have "case validateForm (form s) s of
      Inl (e, s') \<Rightarrow> timers s' = timers s \<and> now s' = now s \<and> form s' = form s \<and> next_id s \<le> next_id s'
    | Inr (ok, s') \<Rightarrow> timers s' = timers s \<and> now s' = now s \<and> form s' = form s \<and> next_id s \<le> next_id s'"
    unfolding validateForm_def by (rule validateFields_scalars)
  with assms(1) have "timers s1 = timers s" "now s1 = now s" by simp_all
  with assms show ?thesis by (simp add: submitListener_def Let_def)
qed

text \<open>
  Claim C10. In the submit flow of the contact form no error banner can appear. A submission
  that passes \<open>validateForm\<close>, on a form with a submit control, registers the call of
  \<open>handleFormSuccess\<close> 2000 ms ahead and raises nothing; a registered callback runs exactly
  when it is due; no event or callback of the page introduces an error banner; and
  \<open>handleFormError\<close>, which no listener or callback invokes, would introduce one.
\<close>

theorem failure_state_unreachable:
  "(validateForm (form s) s = Inr (True, s1) \<and>
    querySelector isSubmitButton (form s1) (doc s1) = Some b \<longrightarrow>
      (\<exists>s2. submitListener s = (None, s2) \<and> now s2 = now s \<and>
         timers s2 = timers s @ [(now s + 2000, CallHandleFormSuccess (nid b) (innerHTML (el b)))]))
   \<and> runTask (CallHandleFormSuccess c L) s = handleFormSuccess (form s) c L s
   \<and> (timersAhead s \<and> run evs s = Some s' \<and>
       find (\<lambda>(t, k). t \<le> now s') (timers s') = Some (t, k) \<longrightarrow> t = now s')
   \<and> (noErrorBanner s \<and> run evs s = Some s' \<longrightarrow> noErrorBanner s')
   \<and> \<not> noErrorBanner (handleFormError (form s) c L msg s)"
  using submitListener_valid [of s s1 b] timersAhead_run [of s evs s'] due_exactly [of s' t k]
    noErrorBanner_run [of s evs s'] handleFormError_banner [of s c L msg]
  by auto

theorem failure_state_unreachable_witness:
  "map_option (\<lambda>s. (noErrorBanner s, timers s)) (run [Submit] (miniPage True))
     = Some (True, [(2000, CallHandleFormSuccess 5 (Html []))])
   \<and> map_option (\<lambda>s. (noErrorBanner s, now s)) (run [Submit, Wait 2000, Fire] (miniPage True))
     = Some (True, 2000)"
proof -
  let ?P = "miniPage True"
  let ?B = "Elem 5 (control (Button (Some (ascii ''submit''))) [] [] False False) []"
  note c1 = failure_state_unreachable [THEN conjunct1, rule_format]
    and c3 = failure_state_unreachable [THEN conjunct2, THEN conjunct2, THEN conjunct1, rule_format]
    and c4 = failure_state_unreachable [THEN conjunct2, THEN conjunct2, THEN conjunct2,
      THEN conjunct1, rule_format]
  have v: "validateForm (form ?P) ?P = Inr (True, ?P)"
    by (simp add: eval_defs)
  have b: "querySelector isSubmitButton (form ?P) (doc ?P) = Some ?B"
    by (simp add: eval_defs)
  have en: "submitEnabled ?P" by (simp add: eval_defs)
  have ne: "noErrorBanner ?P"
    by (simp add: noErrorBanner_def isErrorBanner_def eval_defs)
  have ta: "timersAhead ?P"
    by (simp add: timersAhead_def eval_defs)
  from c1 [OF conjI [OF v b]] obtain s1 where s1: "submitListener ?P = (None, s1)"
    and t1: "timers s1 = timers ?P @ [(now ?P + 2000, CallHandleFormSuccess (nid ?B) (innerHTML (el ?B)))]"
    and n1: "now s1 = now ?P"
    by blast
  from s1 en have r1: "run [Submit] ?P = Some s1" by simp
  from t1 have t1': "timers s1 = [(2000, CallHandleFormSuccess 5 (Html []))]"
    by (simp add: miniPage_def control_def)
  from n1 have n1': "now s1 = 0" by (simp add: miniPage_def)
  let ?s2 = "s1\<lparr>now := 2000\<rparr>"
  have r2: "run [Submit, Wait 2000] ?P = Some ?s2"
    using s1 en t1' n1' by simp
  have f: "find (\<lambda>(t, k). t \<le> now ?s2) (timers ?s2) = Some (2000, CallHandleFormSuccess 5 (Html []))"
    using t1' by simp
  let ?s3 = "runTask (CallHandleFormSuccess 5 (Html [])) (?s2\<lparr>timers := []\<rparr>)"
  have r3: "run [Submit, Wait 2000, Fire] ?P = Some ?s3"
    using s1 en t1' n1' by simp
  have "noErrorBanner s1" using c4 [OF conjI [OF ne r1]] .
  moreover have "noErrorBanner ?s3" using c4 [OF conjI [OF ne r3]] .
  moreover have "now ?s2 = 2000" using c3 [OF conjI [OF ta conjI [OF r2 f]]] by simp
  then have "now ?s3 = 2000" by simp
  ultimately show ?thesis using r1 r3 t1' by simp
qed

lemma descendants_modify: "descendants (modify f g d) = map (modify f g) (descendants d)"
  using nodes_modify [of f g d] by (simp add: nodes_eq)

lemma querySelector_modify:
  assumes "\<And>e. sel (g e) = sel e"
  shows "querySelector sel p (modify f g d) = map_option (modify f g) (querySelector sel p d)"
  by (cases "getNode p d")
     (simp_all add: querySelector_def getNode_modify descendants_modify find_map_comp el_modify assms)

lemma descendants_removeNode_neq: "n \<in> set (descendants (removeNode x d)) \<Longrightarrow> nid n \<noteq> x"
proof (induction d arbitrary: n)
  case (Elem j e ks)
  from Elem.prems obtain k where k: "k \<in> set ks" "nid k \<noteq> x" "n \<in> set (nodes (removeNode x k))"
    by (auto simp: descendants_iff)
  from k(3) consider "n = removeNode x k" | "n \<in> set (descendants (removeNode x k))"
    by (auto simp: set_nodes)
  then show ?case
  proof cases
    case 1
    then have "nid n = nid k" by simp
    with k(2) show ?thesis by simp
  next
    case 2
    with k(1) show ?thesis by (rule Elem.IH)
  qed
qed

lemma allNodes_modify_at:
  assumes "\<And>e. Q (g e)"
  shows "allNodes (\<lambda>i e. i = f \<longrightarrow> Q e) (modify f g d)"
  unfolding allNodes_def nodes_modify by (auto simp: el_modify assms)

lemma clearError_field:
  "allNodes (\<lambda>i e. i = f \<longrightarrow> \<not> hasClass (ascii ''error'') e \<and> \<not> hasClass (ascii ''border-red-500'') e)
     (doc (clearError f p s))"
proof -
  let ?R = "\<lambda>i e. i = f \<longrightarrow> \<not> hasClass (ascii ''error'') e \<and> \<not> hasClass (ascii ''border-red-500'') e"
  have "allNodes ?R (modify f (classList_remove [ascii ''error'', ascii ''border-red-500'']) (doc s))"
    by (rule allNodes_modify_at) simp
  then show ?thesis
    by (simp add: clearError_def Let_def allNodes_removeNode split: option.splits)
qed

lemma clearError_message:
  assumes "querySelector (hasClass (ascii ''error-message'')) p (doc s) = Some x"
  shows "nid x \<notin> nid ` set (descendants (doc (clearError f p s)))"
proof -
  let ?g = "classList_remove [ascii ''error'', ascii ''border-red-500'']"
  have "querySelector (hasClass (ascii ''error-message'')) p (modify f ?g (doc s))
      = Some (modify f ?g x)"
    using assms by (simp add: querySelector_modify class_names)
  then have d: "doc (clearError f p s) = removeNode (nid x) (modify f ?g (doc s))"
    by (simp add: clearError_def)
  have "nid n \<noteq> nid x" if "n \<in> set (descendants (doc (clearError f p s)))" for n
    using that unfolding d by (rule descendants_removeNode_neq)
  then show ?thesis by (metis imageE)
qed

lemma checkField_classList: "checkField (e\<lparr>classList := cs\<rparr>) = checkField e"
proof -
  have "trimmedValue (e\<lparr>classList := cs\<rparr>) = trimmedValue e"
    by (simp add: trimmedValue_def)
  moreover have "presenceCheck (e\<lparr>classList := cs\<rparr>) v = presenceCheck e v" for v
    by (simp add: presenceCheck_def)
  moreover have "typeCheck (e\<lparr>classList := cs\<rparr>) v r = typeCheck e v r" for v r
    by (simp add: typeCheck_def)
  moreover have "lengthCheck (e\<lparr>classList := cs\<rparr>) v r = lengthCheck e v r" for v r
    by (simp add: lengthCheck_def)
  ultimately show ?thesis by (simp add: checkField_def Let_def)
qed

lemma validateField_eq:
  assumes "getNode f (doc s) = Some n" and "parentNode f (doc s) = Some p"
  shows "validateField f s =
     Inr (fst (checkField (el n)),
          if fst (checkField (el n)) then clearError f p s
          else showError f p (snd (checkField (el n))) (clearError f p s))"
  using assms by (simp add: validateField_def Let_def split: prod.splits)

lemma handleFormError_tidy:
  assumes "tidy (doc s) (next_id s)"
  shows "dcnt (\<lambda>i. hasClass (ascii ''form-message'')) (doc (handleFormError (form s) b L msg s)) = 1"
proof -
  let ?frm = "nid (doc s)"
  let ?d2 = "insertFirst ?frm (Elem (next_id s) (newDiv errorClasses (ErrorBanner msg)) [])
               (removeExistingMessage ?frm (doc s))"
  have "dcnt (\<lambda>i. hasClass (ascii ''form-message'')) ?d2 = 1"
    by (rule tidy_insert_banner [OF assms]) (simp add: class_names)
  then have "dcnt (\<lambda>i. hasClass (ascii ''form-message''))
      (modify b (\<lambda>e. e\<lparr>disabled := False, innerHTML := L\<rparr>) ?d2) = 1"
    by (simp add: dcnt_modify)
  then show ?thesis by (simp add: handleFormError_def Let_def form_def)
qed

lemma handleFormSuccess_one:
  assumes "tidy (doc s) (next_id s)"
  shows "dcnt (\<lambda>i. hasClass (ascii ''form-message'')) (doc (handleFormSuccess (form s) b L s)) \<le> 1"
  using handleFormSuccess_tidy [OF assms] by simp

subsection \<open>Identities\<close>

lemma ids_modify: "map nid (nodes (modify f g d)) = map nid (nodes d)"
  by (simp add: nodes_modify comp_def)

lemma distinct_removeNode:
  "distinct (map nid (nodes d)) \<Longrightarrow> distinct (map nid (nodes (removeNode x d)))"
  unfolding distinct_ids_cnt using cnt_removeNode_le order_trans by blast

lemma same_id_same_node:
  assumes "distinct (map nid (nodes d))" and "a \<in> set (nodes d)" and "b \<in> set (nodes d)"
    and "nid a = nid b"
  shows "a = b"
  using assms by (meson distinct_map inj_onD)

lemma find_first: "x \<in> set xs \<Longrightarrow> P x \<Longrightarrow> \<exists>y. find P xs = Some y"
  by (cases "find P xs") (auto simp: find_None_iff)

lemma getNode_unique:
  assumes "distinct (map nid (nodes d))" and "n \<in> set (nodes d)"
  shows "getNode (nid n) d = Some n"
proof -
  from assms(2) obtain y where y: "getNode (nid n) d = Some y"
    unfolding getNode_def using find_first [of n "nodes d" "\<lambda>m. nid m = nid n"] by auto
  then have "y \<in> set (nodes d)" "nid y = nid n" by (auto dest: getNode_in)
  with assms have "y = n" by (intro same_id_same_node [of d]) simp_all
  with y show ?thesis by simp
qed

lemma nodes_sub: "n \<in> set (nodes d) \<Longrightarrow> set (nodes n) \<subseteq> set (nodes d)"
  using nodes_trans by blast

lemma modify_absent: "f \<notin> nid ` set (nodes d) \<Longrightarrow> modify f g d = d"
proof (induction d)
  case (Elem j e ks)
  have "map (modify f g) ks = ks"
  proof (rule map_idI)
    fix k assume k: "k \<in> set ks"
    then have "set (nodes k) \<subseteq> set (nodes (Elem j e ks))"
      by (auto simp: set_nodes [of "Elem j e ks"] descendants_iff)
    with Elem.prems have "f \<notin> nid ` set (nodes k)" by blast
    with k show "modify f g k = k" by (rule Elem.IH)
  qed
  moreover from Elem.prems have "j \<noteq> f" by (auto simp: set_nodes)
  ultimately show ?case by simp
qed

lemma removeNode_absent: "x \<notin> nid ` set (descendants d) \<Longrightarrow> removeNode x d = d"
proof (induction d)
  case (Elem j e ks)
  have ks: "nid k \<noteq> x \<and> x \<notin> nid ` set (descendants k)" if "k \<in> set ks" for k
  proof -
    from that have "set (nodes k) \<subseteq> set (descendants (Elem j e ks))"
      by (auto simp: descendants_iff)
    with Elem.prems show ?thesis by (auto simp: set_nodes)
  qed
  then have "filter (\<lambda>k. nid k \<noteq> x) ks = ks" by (simp add: filter_id_conv)
  moreover have "map (removeNode x) ks = ks"
    by (rule map_idI) (use ks Elem.IH in blast)
  ultimately show ?case by simp
qed

lemma removeNode_member:
  assumes "n \<in> set (nodes d)" and "\<And>X. X \<in> set (descendants d) \<Longrightarrow> nid X = x \<Longrightarrow> n \<notin> set (nodes X)"
  shows "removeNode x n \<in> set (nodes (removeNode x d))"
  using assms
proof (induction d)
  case (Elem j e ks)
  show ?case
  proof (cases "n = Elem j e ks")
    case True
    then show ?thesis using nodes_self by blast
  next
    case False
    with Elem.prems(1) obtain k where k: "k \<in> set ks" "n \<in> set (nodes k)"
      by (auto simp: set_nodes [of "Elem j e ks"] descendants_iff)
    have kd: "k \<in> set (descendants (Elem j e ks))"
      using k(1) nodes_self [of k] by (auto simp: descendants_iff)
    with Elem.prems(2) [of k] k(2) have kx: "nid k \<noteq> x" by blast
    have "removeNode x n \<in> set (nodes (removeNode x k))"
    proof (rule Elem.IH [OF k(1) k(2)])
      fix X assume X: "X \<in> set (descendants k)" "nid X = x"
      from X(1) k(1) have "X \<in> set (descendants (Elem j e ks))"
        by (auto simp: descendants_iff [of _ "Elem j e ks"] set_nodes)
      then show "n \<notin> set (nodes X)" using X(2) by (rule Elem.prems(2))
    qed
    with k(1) kx show ?thesis
      by (auto simp: set_nodes [of "Elem j e (map _ _)"] descendants_iff)
  qed
qed

lemma parentNode_in:
  assumes "parentNode i d = Some p"
  shows "\<exists>np\<in>set (nodes d). nid np = p \<and> i \<in> nid ` set (kids np)"
  using assms by (auto simp: parentNode_def dest!: find_SomeD)

lemma checkbox_is_no_textarea:
  assumes "typeProp k = ascii ''checkbox''"
  shows "toLowerCase (tagName k) \<noteq> ascii ''textarea''"
proof (cases k)
  case (Input t)
  then show ?thesis by simp
next
  case Textarea
  with assms show ?thesis by simp
next
  case (Select m)
  then show ?thesis by simp
next
  case (Button t)
  then show ?thesis by simp
next
  case (Other tag)
  with assms show ?thesis by simp
qed

lemma checkField_checkbox:
  assumes "typeProp (kind e) = ascii ''checkbox''" and "required e"
  shows "checkField e = (if checked e then (True, []) else (False, msgPrivacy))"
proof -
  have "presenceCheck e v = (if checked e then (True, []) else (False, msgPrivacy))" for v
    using assms by (simp add: presenceCheck_def)
  moreover have "typeCheck e v r = r" for v r
    using assms(1) by (simp add: typeCheck_def)
  moreover have "lengthCheck e v r = r" for v r
    using checkbox_is_no_textarea [OF assms(1)] by (simp add: lengthCheck_def)
  ultimately show ?thesis by (simp add: checkField_def Let_def)
qed

lemma kids_in_nodes: "k \<in> set (kids n) \<Longrightarrow> k \<in> set (nodes n)"
proof -
  assume "k \<in> set (kids n)"
  then have "k \<in> set (descendants n)"
    using nodes_self [of k] by (simp only: descendants_iff [of k n]) blast
  then show ?thesis by (simp only: set_nodes [of n]) simp
qed

lemma clearError_doc:
  "doc (clearError f p s) =
     (case querySelector (hasClass (ascii ''error-message'')) p
             (modify f (classList_remove [ascii ''error'', ascii ''border-red-500'']) (doc s)) of
        None \<Rightarrow> modify f (classList_remove [ascii ''error'', ascii ''border-red-500'']) (doc s)
      | Some x \<Rightarrow> removeNode (nid x)
                    (modify f (classList_remove [ascii ''error'', ascii ''border-red-500'']) (doc s)))"
  by (simp add: clearError_def Let_def split: option.splits)

lemma clearError_other_field:
  assumes dist: "distinct (map nid (nodes (doc s)))" and gf: "g \<noteq> f"
    and g: "getNode g (doc s) = Some ng"
    and out: "\<And>x. querySelector (hasClass (ascii ''error-message'')) p (doc s) = Some x
                \<Longrightarrow> ng \<notin> set (nodes x)"
  shows "\<exists>ng'. getNode g (doc (clearError f p s)) = Some ng' \<and> el ng' = el ng"
proof -
  let ?g0 = "classList_remove [ascii ''error'', ascii ''border-red-500'']"
  let ?d = "doc s"
  let ?d1 = "modify f ?g0 ?d"
  let ?ng1 = "modify f ?g0 ng"
  from g have ng: "ng \<in> set (nodes ?d)" "nid ng = g" by (auto dest: getNode_in)
  have g1: "getNode g ?d1 = Some ?ng1" using g by (simp add: getNode_modify)
  have e1: "el ?ng1 = el ng" using ng(2) gf by (simp add: el_modify)
  have dist1: "distinct (map nid (nodes ?d1))" using dist by (simp add: ids_modify)
  show ?thesis
  proof (cases "querySelector (hasClass (ascii ''error-message'')) p ?d1")
    case None
    with g1 e1 show ?thesis by (simp add: clearError_doc)
  next
    case (Some x1)
    then obtain x where x: "querySelector (hasClass (ascii ''error-message'')) p ?d = Some x"
      and x1: "x1 = modify f ?g0 x"
      by (auto simp: querySelector_modify class_names)
    from x have xin: "x \<in> set (nodes ?d)" by (rule querySelector_in)
    from Some have x1in: "x1 \<in> set (nodes ?d1)" by (rule querySelector_in)
    have notin: "?ng1 \<notin> set (nodes X)" if X: "X \<in> set (descendants ?d1)" "nid X = nid x1" for X
    proof
      assume a: "?ng1 \<in> set (nodes X)"
      from X have "X = x1"
        using x1in by (intro same_id_same_node [OF dist1]) (simp_all add: set_nodes)
      with a x1 obtain b where b: "b \<in> set (nodes x)" "modify f ?g0 b = ?ng1"
        by (auto simp: nodes_modify)
      from b(2) have "nid b = nid ng" by (metis nid_modify)
      moreover from b(1) xin have "b \<in> set (nodes ?d)" using nodes_sub by blast
      ultimately have "b = ng" using ng(1) by (intro same_id_same_node [OF dist])
      with b(1) out [OF x] show False by simp
    qed
    have "?ng1 \<in> set (nodes ?d1)" using ng(1) by (simp add: nodes_modify)
    then have m: "removeNode (nid x1) ?ng1 \<in> set (nodes (removeNode (nid x1) ?d1))"
      using notin by (rule removeNode_member)
    have "distinct (map nid (nodes (removeNode (nid x1) ?d1)))"
      using dist1 by (rule distinct_removeNode)
    from getNode_unique [OF this m] ng(2)
    have "getNode g (removeNode (nid x1) ?d1) = Some (removeNode (nid x1) ?ng1)" by simp
    with Some e1 show ?thesis by (simp add: clearError_doc)
  qed
qed

lemma clearError_disjoint:
  assumes dist: "distinct (map nid (nodes (doc s)))"
    and par: "parentNode f (doc s) = Some p"
    and h: "getNode h (doc s) = Some nh" and p: "getNode p (doc s) = Some np"
    and disj: "nid ` set (nodes nh) \<inter> nid ` set (nodes np) = {}"
  shows "getNode h (doc (clearError f p s)) = Some nh"
proof -
  let ?g0 = "classList_remove [ascii ''error'', ascii ''border-red-500'']"
  let ?d = "doc s"
  let ?d1 = "modify f ?g0 ?d"
  from h have nh: "nh \<in> set (nodes ?d)" "nid nh = h" by (auto dest: getNode_in)
  from p have np: "np \<in> set (nodes ?d)" "nid np = p" by (auto dest: getNode_in)
  from par obtain np' where np': "np' \<in> set (nodes ?d)" "nid np' = p" "f \<in> nid ` set (kids np')"
    using parentNode_in by blast
  from np np'(1,2) have "np' = np" by (intro same_id_same_node [OF dist]) simp_all
  with np'(3) have "f \<in> nid ` set (nodes np)" using kids_in_nodes by blast
  with disj have "f \<notin> nid ` set (nodes nh)" by blast
  then have same: "modify f ?g0 nh = nh" by (rule modify_absent)
  have "modify f ?g0 nh \<in> set (nodes ?d1)" using nh(1) by (simp add: nodes_modify)
  with same have nh1: "nh \<in> set (nodes ?d1)" by simp
  have dist1: "distinct (map nid (nodes ?d1))" using dist by (simp add: ids_modify)
  show ?thesis
  proof (cases "querySelector (hasClass (ascii ''error-message'')) p ?d1")
    case None
    with getNode_unique [OF dist1 nh1] nh(2) show ?thesis by (simp add: clearError_doc)
  next
    case (Some x1)
    then obtain n1 where n1: "getNode p ?d1 = Some n1" "x1 \<in> set (descendants n1)"
      using querySelector_in(3) by blast
    from n1(1) p have "n1 = modify f ?g0 np" by (simp add: getNode_modify)
    then have ids1: "nid ` set (nodes n1) = nid ` set (nodes np)"
      by (simp add: nodes_modify image_image)
    from n1(2) have x1n: "x1 \<in> set (nodes n1)" by (simp add: set_nodes)
    then have sub: "nid ` set (nodes x1) \<subseteq> nid ` set (nodes np)"
      using nodes_sub ids1 by blast
    from Some have x1in: "x1 \<in> set (nodes ?d1)" by (rule querySelector_in)
    have "nid x1 \<in> nid ` set (nodes np)" using sub nodes_self by blast
    with disj have "nid x1 \<notin> nid ` set (nodes nh)" by blast
    then have "nid x1 \<notin> nid ` set (descendants nh)" by (auto simp: set_nodes)
    then have keep: "removeNode (nid x1) nh = nh" by (rule removeNode_absent)
    have notin: "nh \<notin> set (nodes X)" if X: "X \<in> set (descendants ?d1)" "nid X = nid x1" for X
    proof
      assume a: "nh \<in> set (nodes X)"
      from X have "X = x1"
        using x1in by (intro same_id_same_node [OF dist1]) (simp_all add: set_nodes)
      with a have "nid nh \<in> nid ` set (nodes x1)" by blast
      with sub have "nid nh \<in> nid ` set (nodes np)" by blast
      moreover have "nid nh \<in> nid ` set (nodes nh)" using nodes_self by blast
      ultimately show False using disj by blast
    qed
    from nh1 have "removeNode (nid x1) nh \<in> set (nodes (removeNode (nid x1) ?d1))"
      using notin by (rule removeNode_member)
    with keep have m: "nh \<in> set (nodes (removeNode (nid x1) ?d1))" by simp
    have "distinct (map nid (nodes (removeNode (nid x1) ?d1)))"
      using dist1 by (rule distinct_removeNode)
    from getNode_unique [OF this m] nh(2) Some show ?thesis by (simp add: clearError_doc)
  qed
qed

text \<open>
  Claim C7 at a form in which the checkbox 4 shares its parent 1 with the container 2 of the
  text field 3. Both fields are left invalid, each with its message: message 6 (the
  data-privacy message) for the checkbox below element 1, message 7 (the name message) for
  the text field in container 2. The user ticks the box; its validation now returns \<open>true\<close>.
  The change event validates it: the first error message below element 1 is removed, which
  is message 7 of the text field, and the checkbox's own message 6 stays in the form.
\<close>

theorem checkbox_toggle_removes_other_message:
  "map_option (errorMessagesIn 1) (run [Blur 4, Blur 3] nestedPage) = Some [7, 6]
   \<and> map_option (errorMessagesIn 2) (run [Blur 4, Blur 3] nestedPage) = Some [7]
   \<and> map_option (\<lambda>s. map_option (\<lambda>n. innerHTML (el n)) (getNode 6 (doc s)))
        (run [Blur 4, Blur 3] nestedPage) = Some (Some (FieldError msgPrivacy))
   \<and> map_option (\<lambda>s. map_option (\<lambda>n. innerHTML (el n)) (getNode 7 (doc s)))
        (run [Blur 4, Blur 3] nestedPage) = Some (Some (FieldError msgNameRequired))
   \<and> map_option (\<lambda>s. map_sum id fst (validateField 4 s))
        (run [Blur 4, Blur 3] nestedPage) = Some (Inr False)
   \<and> map_option (\<lambda>s. map_sum id fst (validateField 4 s))
        (run [Blur 4, Blur 3, UserSets 4 (ascii ''on'') True] nestedPage) = Some (Inr True)
   \<and> map_option (errorMessagesIn 1)
        (run [Blur 4, Blur 3, UserSets 4 (ascii ''on'') True, Change 4] nestedPage) = Some [6]
   \<and> map_option (errorMessagesIn 2)
        (run [Blur 4, Blur 3, UserSets 4 (ascii ''on'') True, Change 4] nestedPage) = Some []
   \<and> map_option (\<lambda>s. map_option (\<lambda>n. hasClass (ascii ''error'') (el n)) (getNode 3 (doc s)))
        (run [Blur 4, Blur 3, UserSets 4 (ascii ''on'') True, Change 4] nestedPage) = Some (Some True)"
proof -
  have a: "map_option (errorMessagesIn 1) (run [Blur 4, Blur 3] nestedPage) = Some [7, 6]"
    by (simp add: nestedPage_def errorMessagesIn_def eval_defs)
  have b: "map_option (errorMessagesIn 2) (run [Blur 4, Blur 3] nestedPage) = Some [7]"
    by (simp add: nestedPage_def errorMessagesIn_def eval_defs)
  have c: "map_option (\<lambda>s. map_option (\<lambda>n. innerHTML (el n)) (getNode 6 (doc s)))
        (run [Blur 4, Blur 3] nestedPage) = Some (Some (FieldError msgPrivacy))"
    by (simp add: nestedPage_def eval_defs)
  have d: "map_option (\<lambda>s. map_option (\<lambda>n. innerHTML (el n)) (getNode 7 (doc s)))
        (run [Blur 4, Blur 3] nestedPage) = Some (Some (FieldError msgNameRequired))"
    by (simp add: nestedPage_def eval_defs)
  have e: "map_option (\<lambda>s. map_sum id fst (validateField 4 s))
        (run [Blur 4, Blur 3] nestedPage) = Some (Inr False)"
    by (simp add: nestedPage_def eval_defs)
  have f: "map_option (\<lambda>s. map_sum id fst (validateField 4 s))
        (run [Blur 4, Blur 3, UserSets 4 (ascii ''on'') True] nestedPage) = Some (Inr True)"
    by (simp add: nestedPage_def eval_defs)
  have g: "map_option (errorMessagesIn 1)
        (run [Blur 4, Blur 3, UserSets 4 (ascii ''on'') True, Change 4] nestedPage) = Some [6]"
    by (simp add: nestedPage_def errorMessagesIn_def changeListener_def eval_defs)
  have h: "map_option (errorMessagesIn 2)
        (run [Blur 4, Blur 3, UserSets 4 (ascii ''on'') True, Change 4] nestedPage) = Some []"
    by (simp add: nestedPage_def errorMessagesIn_def changeListener_def eval_defs)
  have i: "map_option (\<lambda>s. map_option (\<lambda>n. hasClass (ascii ''error'') (el n)) (getNode 3 (doc s)))
        (run [Blur 4, Blur 3, UserSets 4 (ascii ''on'') True, Change 4] nestedPage) = Some (Some True)"
    by (simp add: nestedPage_def changeListener_def eval_defs)
  from a b c d e f g h i show ?thesis by blast
qed

text \<open>
  Claim C9 at the same form. Both fields are left invalid, then the checkbox is validated
  again. \<open>validateField\<close> removes the first error message below element 1, which is message 7
  of the text field, computes the result and appends message 8: the checkbox's existing
  message 6 was not removed before the new result, the checkbox now has two messages, and the
  text field, still marked invalid, has none.
\<close>

theorem revalidation_keeps_own_message:
  "map_option (errorMessagesIn 1) (run [Blur 4, Blur 3] nestedPage) = Some [7, 6]
   \<and> map_option (errorMessagesIn 1) (run [Blur 4, Blur 3, Blur 4] nestedPage) = Some [6, 8]
   \<and> map_option (errorMessagesIn 2) (run [Blur 4, Blur 3, Blur 4] nestedPage) = Some []
   \<and> map_option (\<lambda>s. map_option (\<lambda>n. innerHTML (el n)) (getNode 6 (doc s)))
        (run [Blur 4, Blur 3, Blur 4] nestedPage) = Some (Some (FieldError msgPrivacy))
   \<and> map_option (\<lambda>s. map_option (\<lambda>n. innerHTML (el n)) (getNode 8 (doc s)))
        (run [Blur 4, Blur 3, Blur 4] nestedPage) = Some (Some (FieldError msgPrivacy))
   \<and> map_option (\<lambda>s. map_option (\<lambda>n. hasClass (ascii ''error'') (el n)) (getNode 3 (doc s)))
        (run [Blur 4, Blur 3, Blur 4] nestedPage) = Some (Some True)"
proof -
  have a: "map_option (errorMessagesIn 1) (run [Blur 4, Blur 3] nestedPage) = Some [7, 6]"
    by (simp add: nestedPage_def errorMessagesIn_def eval_defs)
  have b: "map_option (errorMessagesIn 1) (run [Blur 4, Blur 3, Blur 4] nestedPage) = Some [6, 8]"
    by (simp add: nestedPage_def errorMessagesIn_def eval_defs)
  have c: "map_option (errorMessagesIn 2) (run [Blur 4, Blur 3, Blur 4] nestedPage) = Some []"
    by (simp add: nestedPage_def errorMessagesIn_def eval_defs)
  have d: "map_option (\<lambda>s. map_option (\<lambda>n. innerHTML (el n)) (getNode 6 (doc s)))
        (run [Blur 4, Blur 3, Blur 4] nestedPage) = Some (Some (FieldError msgPrivacy))"
    by (simp add: nestedPage_def eval_defs)
  have e: "map_option (\<lambda>s. map_option (\<lambda>n. innerHTML (el n)) (getNode 8 (doc s)))
        (run [Blur 4, Blur 3, Blur 4] nestedPage) = Some (Some (FieldError msgPrivacy))"
    by (simp add: nestedPage_def eval_defs)
  have f: "map_option (\<lambda>s. map_option (\<lambda>n. hasClass (ascii ''error'') (el n)) (getNode 3 (doc s)))
        (run [Blur 4, Blur 3, Blur 4] nestedPage) = Some (Some True)"
    by (simp add: nestedPage_def eval_defs)
  from a b c d e f show ?thesis by blast
qed

subsection \<open>Runs in which no submission completes\<close>

lemma removesOther_iff: "removesOther M k \<longleftrightarrow> (\<exists>m. k = RemoveMessage m \<and> m \<notin> M)"
  by (cases k) simp_all

lemma quiet_run:
  assumes "fieldClosed Inv" and "editClosed Inv" and "removalClosed M Inv"
  shows "Inv (doc s) (next_id s) \<Longrightarrow> run evs s = Some s' \<Longrightarrow>
         list_all (removesOther M) (firedAlong evs s) \<Longrightarrow> Inv (doc s') (next_id s')"
proof (induction evs arbitrary: s)
  case Nil
  then show ?case by simp
next
  case (Cons ev evs)
  from Cons.prems(2) obtain s1 where s1: "step ev s = Some s1" "run evs s1 = Some s'"
    by (auto split: option.splits)
  from Cons.prems(3) s1(1)
  have r: "list_all (removesOther M) (firedAlong evs s1)"
    by (auto split: option.splits)
  from Cons.prems(3) s1(1)
  have f: "\<And>k. fired ev s = Some k \<Longrightarrow> \<exists>m. k = RemoveMessage m \<and> m \<notin> M"
    by (auto simp: removesOther_iff)
  from quiet_step [OF assms Cons.prems(1) s1(1) f] have "Inv (doc s1) (next_id s1)" by blast
  from Cons.IH [OF this s1(2) r] show ?case .
qed

subsection \<open>The submit control stays disabled\<close>

lemma disabled_fieldClosed:
  "fieldClosed (\<lambda>d nx. b < nx \<and> allNodes (\<lambda>i e. i = b \<longrightarrow> disabled e) d)"
  unfolding fieldClosed_def
proof (intro conjI allI impI)
  fix d nx f
  assume a: "b < nx \<and> allNodes (\<lambda>i e. i = b \<longrightarrow> disabled e) d"
  then show "b < nx" by simp
  from a show "allNodes (\<lambda>i e. i = b \<longrightarrow> disabled e)
      (modify f (classList_remove [ascii ''error'', ascii ''border-red-500'']) d)"
    by (intro allNodes_modify) (simp_all add: classList_remove_def)
  from a show "b < nx" by simp
  from a show "allNodes (\<lambda>i e. i = b \<longrightarrow> disabled e)
      (modify f (classList_add [ascii ''error'', ascii ''border-red-500'']) d)"
    by (intro allNodes_modify) (simp_all add: classList_add_def)
next
  fix d nx x
  assume a: "(b < nx \<and> allNodes (\<lambda>i e. i = b \<longrightarrow> disabled e) d) \<and> x \<in> set (nodes d) \<and>
      hasClass (ascii ''error-message'') (el x)"
  then show "b < nx" by simp
  from a show "allNodes (\<lambda>i e. i = b \<longrightarrow> disabled e) (removeNode (nid x) d)"
    by (intro allNodes_removeNode) simp
next
  fix d nx p msg
  assume a: "b < nx \<and> allNodes (\<lambda>i e. i = b \<longrightarrow> disabled e) d"
  then show "b < Suc nx" by simp
  from a show "allNodes (\<lambda>i e. i = b \<longrightarrow> disabled e)
      (appendChild p (Elem nx (newDiv errorMessageClasses (FieldError msg)) []) d)"
    by (intro allNodes_appendChild) (simp_all add: allNodes_Elem)
qed

lemma disabled_editClosed:
  "editClosed (\<lambda>d nx. b < nx \<and> allNodes (\<lambda>i e. i = b \<longrightarrow> disabled e) d)"
  unfolding editClosed_def by (auto intro!: allNodes_modify)

lemma disabled_removalClosed:
  "removalClosed {} (\<lambda>d nx. b < nx \<and> allNodes (\<lambda>i e. i = b \<longrightarrow> disabled e) d)"
  unfolding removalClosed_def by (auto intro: allNodes_removeNode)

lemma stays_disabled:
  assumes "b < next_id s" and "allNodes (\<lambda>i e. i = b \<longrightarrow> disabled e) (doc s)"
    and "run evs s = Some s'" and "list_all (removesOther {}) (firedAlong evs s)"
  shows "allNodes (\<lambda>i e. i = b \<longrightarrow> disabled e) (doc s')"
  using quiet_run [OF disabled_fieldClosed disabled_editClosed disabled_removalClosed _ assms(3,4), of b]
    assms(1,2) by simp

subsection \<open>The message stays until it is removed\<close>

lemma tidy_distinct: "tidy d nx \<Longrightarrow> distinct (map nid (nodes d))"
  by (simp add: tidy_def distinct_ids_cnt)

lemma banner_modify:
  assumes "\<exists>n\<in>set (kids d). nid n = m \<and> hasClass (ascii ''form-message'') (el n) \<and>
        \<not> hasClass (ascii ''error-message'') (el n)"
    and "\<And>e. hasClass (ascii ''form-message'') (g e) = hasClass (ascii ''form-message'') e"
    and "\<And>e. hasClass (ascii ''error-message'') (g e) = hasClass (ascii ''error-message'') e"
  shows "\<exists>n\<in>set (kids (modify f g d)). nid n = m \<and> hasClass (ascii ''form-message'') (el n) \<and>
        \<not> hasClass (ascii ''error-message'') (el n)"
proof -
  from assms(1) obtain n where n: "n \<in> set (kids d)" "nid n = m"
    "hasClass (ascii ''form-message'') (el n)" "\<not> hasClass (ascii ''error-message'') (el n)"
    by blast
  have "modify f g n \<in> set (kids (modify f g d))" using n(1) by (simp add: kids_modify)
  moreover have "nid (modify f g n) = m" using n(2) by simp
  moreover have "hasClass (ascii ''form-message'') (el (modify f g n))"
    using n(3) by (simp add: el_modify assms(2))
  moreover have "\<not> hasClass (ascii ''error-message'') (el (modify f g n))"
    using n(4) by (simp add: el_modify assms(3))
  ultimately show ?thesis by blast
qed

lemma banner_removeNode:
  assumes "\<exists>n\<in>set (kids d). nid n = m \<and> hasClass (ascii ''form-message'') (el n) \<and>
        \<not> hasClass (ascii ''error-message'') (el n)"
    and "x \<noteq> m"
  shows "\<exists>n\<in>set (kids (removeNode x d)). nid n = m \<and> hasClass (ascii ''form-message'') (el n) \<and>
        \<not> hasClass (ascii ''error-message'') (el n)"
proof -
  from assms(1) obtain n where n: "n \<in> set (kids d)" "nid n = m"
    "hasClass (ascii ''form-message'') (el n)" "\<not> hasClass (ascii ''error-message'') (el n)"
    by blast
  have "removeNode x n \<in> set (kids (removeNode x d))"
    using n(1,2) assms(2) by (simp add: kids_removeNode)
  moreover have "nid (removeNode x n) = m" using n(2) by simp
  ultimately show ?thesis using n(3,4) by (intro bexI [of _ "removeNode x n"]) simp_all
qed

lemma banner_appendChild:
  assumes "\<exists>n\<in>set (kids d). nid n = m \<and> hasClass (ascii ''form-message'') (el n) \<and>
        \<not> hasClass (ascii ''error-message'') (el n)"
  shows "\<exists>n\<in>set (kids (appendChild p new d)). nid n = m \<and> hasClass (ascii ''form-message'') (el n) \<and>
        \<not> hasClass (ascii ''error-message'') (el n)"
proof -
  from assms(1) obtain n where n: "n \<in> set (kids d)" "nid n = m"
    "hasClass (ascii ''form-message'') (el n)" "\<not> hasClass (ascii ''error-message'') (el n)"
    by blast
  have "appendChild p new n \<in> set (kids (appendChild p new d))"
    using n(1) by (simp add: kids_appendChild)
  then show ?thesis using n(2,3,4) by (intro bexI [of _ "appendChild p new n"]) simp_all
qed

lemma bannerKept_fieldClosed: "fieldClosed (bannerKept m)"
  unfolding fieldClosed_def
proof (intro conjI allI impI)
  fix d nx f
  assume a: "bannerKept m d nx"
  then have t: "tidy d nx" by (simp add: bannerKept_def)
  from t have "tidy (modify f (classList_remove [ascii ''error'', ascii ''border-red-500'']) d) nx"
    using tidy_fieldClosed unfolding fieldClosed_def by blast
  then show "bannerKept m (modify f (classList_remove [ascii ''error'', ascii ''border-red-500'']) d) nx"
    using a unfolding bannerKept_def
    by (intro conjI banner_modify) (simp_all add: class_names)
  from t have "tidy (modify f (classList_add [ascii ''error'', ascii ''border-red-500'']) d) nx"
    using tidy_fieldClosed unfolding fieldClosed_def by blast
  then show "bannerKept m (modify f (classList_add [ascii ''error'', ascii ''border-red-500'']) d) nx"
    using a unfolding bannerKept_def
    by (intro conjI banner_modify) (simp_all add: class_names)
next
  fix d nx x
  assume a: "bannerKept m d nx \<and> x \<in> set (nodes d) \<and> hasClass (ascii ''error-message'') (el x)"
  then have t: "tidy d nx" by (simp add: bannerKept_def)
  from a obtain n where n: "n \<in> set (kids d)" "nid n = m"
    "\<not> hasClass (ascii ''error-message'') (el n)"
    unfolding bannerKept_def by blast
  from n(1) have "n \<in> set (nodes d)" by (rule kids_in_nodes)
  with a n(3) have "nid x \<noteq> nid n"
    using same_id_same_node [OF tidy_distinct [OF t], of x n] by blast
  with n(2) have ne: "nid x \<noteq> m" by simp
  from t a have "tidy (removeNode (nid x) d) nx"
    using tidy_fieldClosed unfolding fieldClosed_def by blast
  then show "bannerKept m (removeNode (nid x) d) nx"
    using a ne unfolding bannerKept_def by (intro conjI banner_removeNode) simp_all
next
  fix d nx p msg
  assume a: "bannerKept m d nx"
  then have "tidy d nx" by (simp add: bannerKept_def)
  then have "tidy (appendChild p (Elem nx (newDiv errorMessageClasses (FieldError msg)) []) d) (Suc nx)"
    using tidy_fieldClosed unfolding fieldClosed_def by blast
  then show "bannerKept m (appendChild p (Elem nx (newDiv errorMessageClasses (FieldError msg)) []) d) (Suc nx)"
    using a unfolding bannerKept_def by (intro conjI banner_appendChild) simp_all
qed

lemma bannerKept_editClosed: "editClosed (bannerKept m)"
  unfolding editClosed_def
proof (intro conjI allI impI)
  fix d nx f v c
  assume a: "bannerKept m d nx"
  then have "tidy (modify f (\<lambda>e. e\<lparr>fieldValue := v, checked := c\<rparr>) d) nx"
    using tidy_editClosed unfolding editClosed_def bannerKept_def by blast
  then show "bannerKept m (modify f (\<lambda>e. e\<lparr>fieldValue := v, checked := c\<rparr>) d) nx"
    using a unfolding bannerKept_def by (intro conjI banner_modify) simp_all
next
  fix d nx b
  assume a: "bannerKept m d nx"
  then have "tidy (modify b (\<lambda>e. e\<lparr>disabled := True, innerHTML := SpinnerLabel\<rparr>) d) nx"
    using tidy_editClosed unfolding editClosed_def bannerKept_def by blast
  then show "bannerKept m (modify b (\<lambda>e. e\<lparr>disabled := True, innerHTML := SpinnerLabel\<rparr>) d) nx"
    using a unfolding bannerKept_def by (intro conjI banner_modify) simp_all
qed

lemma bannerKept_removalClosed: "removalClosed {m} (bannerKept m)"
  unfolding removalClosed_def bannerKept_def
  by (auto intro: tidy_removeNode banner_removeNode)

lemma bannerKept_shown:
  assumes "bannerKept m (doc s) (next_id s)"
  shows "m \<in> set (formMessages s)" and "parentNode m (doc s) \<noteq> None"
proof -
  from assms obtain n where n: "n \<in> set (kids (doc s))" "nid n = m"
    "hasClass (ascii ''form-message'') (el n)"
    unfolding bannerKept_def by blast
  from n(1) have "n \<in> set (descendants (doc s))"
    using nodes_self [of n] by (simp only: descendants_iff [of n "doc s"]) blast
  with n(2,3) show "m \<in> set (formMessages s)"
    by (force simp: formMessages_def form_def querySelectorAll_def)
  have "doc s \<in> set (nodes (doc s))" by (rule nodes_self)
  moreover have "m \<in> set (map nid (kids (doc s)))" using n(1,2) by force
  ultimately obtain y where "find (\<lambda>n. m \<in> set (map nid (kids n))) (nodes (doc s)) = Some y"
    using find_first [of "doc s" "nodes (doc s)" "\<lambda>n. m \<in> set (map nid (kids n))"] by blast
  then show "parentNode m (doc s) \<noteq> None" by (simp add: parentNode_def)
qed

subsection \<open>Loops over the elements a selector found\<close>

lemma nodes_forEach_modify:
  assumes "\<And>e. g (g e) = g e"
  shows "map (\<lambda>n. (nid n, el n)) (nodes (forEach xs (\<lambda>i. modify i g) d)) =
         map (\<lambda>n. (nid n, if nid n \<in> set xs then g (el n) else el n)) (nodes d)"
  unfolding forEach_def
proof (induction xs arbitrary: d)
  case Nil
  show ?case by simp
next
  case (Cons x xs)
  have "map (\<lambda>n. (nid n, el n)) (nodes (fold (\<lambda>i. modify i g) xs (modify x g d))) =
        map (\<lambda>n. (nid n, if nid n \<in> set xs then g (el n) else el n)) (nodes (modify x g d))"
    by (rule Cons.IH)
  also have "\<dots> = map (\<lambda>n. (nid n, if nid n \<in> set (x # xs) then g (el n) else el n)) (nodes d)"
    by (simp add: nodes_modify el_modify assms)
  finally show ?case by simp
qed

lemma below_forEach_modify:
  assumes "\<And>e. g (g e) = g e"
    and "\<And>n. n \<in> set (descendants d) \<Longrightarrow> R (nid n) (if nid n \<in> set xs then g (el n) else el n)"
  shows "below R (forEach xs (\<lambda>i. modify i g) d)"
  unfolding below_def
proof
  fix n
  let ?D = "forEach xs (\<lambda>i. modify i g) d"
  assume n: "n \<in> set (descendants ?D)"
  have eq: "map (\<lambda>n. (nid n, el n)) (descendants ?D) =
        map (\<lambda>n. (nid n, if nid n \<in> set xs then g (el n) else el n)) (descendants d)"
    using nodes_forEach_modify [of g xs d, OF assms(1)] by (simp add: nodes_eq)
  from n have "(nid n, el n) \<in> set (map (\<lambda>n. (nid n, el n)) (descendants ?D))" by force
  then obtain n0 where n0: "n0 \<in> set (descendants d)" "nid n = nid n0"
    "el n = (if nid n0 \<in> set xs then g (el n0) else el n0)"
    unfolding eq by auto
  from assms(2) [OF n0(1)] n0(2,3) show "R (nid n) (el n)" by simp
qed

lemma querySelectorAll_root_mem:
  "n \<in> set (descendants d) \<Longrightarrow> sel (el n) \<Longrightarrow> nid n \<in> set (querySelectorAll sel (nid d) d)"
  by (force simp: querySelectorAll_def)

lemma below_modify:
  assumes "below R d" and "\<And>e. R f e \<Longrightarrow> R f (g e)"
  shows "below R (modify f g d)"
  using assms by (simp add: below_iff kids_modify allNodes_modify)

lemma below_removeNode: "below R d \<Longrightarrow> below R (removeNode x d)"
  by (simp add: below_iff kids_removeNode allNodes_removeNode)

lemma below_removed: "below (\<lambda>i e. i \<noteq> x) (removeNode x d)"
  unfolding below_def using descendants_removeNode_neq by blast

lemma forEach_removeNode_gone:
  "n \<in> set (descendants (forEach zs removeNode d)) \<Longrightarrow> nid n \<notin> set zs"
  unfolding forEach_def
proof (induction zs arbitrary: d)
  case Nil
  show ?case by simp
next
  case (Cons z zs)
  from Cons.prems have n: "n \<in> set (descendants (fold removeNode zs (removeNode z d)))" by simp
  have "below (\<lambda>i e. i \<noteq> z) (forEach zs removeNode (removeNode z d))"
    by (rule forEach_preserves [where P = "below (\<lambda>i e. i \<noteq> z)"])
       (simp_all add: below_removed below_removeNode)
  with n have "nid n \<noteq> z" by (simp add: below_def forEach_def)
  with Cons.IH [OF n] show ?case by simp
qed

lemma forEach_preserves_in:
  assumes "P d" and "\<And>i t. i \<in> set xs \<Longrightarrow> P t \<Longrightarrow> P (f i t)"
  shows "P (forEach xs f d)"
  using assms unfolding forEach_def
  by (induction xs arbitrary: d) simp_all

subsection \<open>The new message is the first child of the form\<close>

lemma first_message_modify:
  assumes "first_message m d" and "\<And>e. classList e = successClasses \<Longrightarrow> classList (g e) = successClasses"
  shows "first_message m (modify f g d)"
  using assms by (auto simp: first_message_def kids_modify)

lemma first_message_removeNode:
  assumes "first_message m d" and "x \<noteq> m"
  shows "first_message m (removeNode x d)"
  using assms by (auto simp: first_message_def kids_removeNode)

lemma successClasses_kept:
  "classList e = successClasses \<Longrightarrow>
     classList (classList_remove [ascii ''error'', ascii ''border-red-500''] e) = successClasses"
  by (simp add: classList_remove_def successClasses_def)

lemma first_message_classes:
  assumes "first_message m d"
  shows "\<exists>n\<in>set (kids d). nid n = m \<and> hasClass (ascii ''form-message'') (el n) \<and>
        \<not> hasClass (ascii ''error-message'') (el n)"
proof -
  from assms obtain e ks where k: "kids d = Elem m e [] # ks" "classList e = successClasses"
    unfolding first_message_def by blast
  have "hasClass (ascii ''form-message'') e" "\<not> hasClass (ascii ''error-message'') e"
    using k(2) class_names by (simp_all add: hasClass_def)
  with k(1) show ?thesis by (intro bexI [of _ "Elem m e []"]) simp_all
qed

subsection \<open>The page after the success handler\<close>

lemma resetControl_idem: "resetControl (resetControl e) = resetControl e"
  by (simp add: resetControl_def)

lemma classList_remove_idem: "classList_remove cs (classList_remove cs e) = classList_remove cs e"
  by (simp add: classList_remove_def)

lemma success_state:
  assumes "tidy (doc s) (next_id s)"
  shows "allNodes (\<lambda>i e. i = b \<longrightarrow> \<not> disabled e \<and> innerHTML e = L)
           (doc (handleFormSuccess (form s) b L s))"
    and "first_message (next_id s) (doc (handleFormSuccess (form s) b L s))"
    and "below (\<lambda>i e. isControl (kind e) \<longrightarrow>
                  (\<not> valueIsAttribute (kind e) \<longrightarrow> fieldValue e = defaultValue e) \<and>
                  checked e = defaultChecked e)
           (doc (handleFormSuccess (form s) b L s))"
    and "below (\<lambda>i e. \<not> hasClass (ascii ''error'') e)
           (doc (handleFormSuccess (form s) b L s))"
    and "below (\<lambda>i e. \<not> hasClass (ascii ''error-message'') e)
           (doc (handleFormSuccess (form s) b L s))"
proof -
  let ?frm = "nid (doc s)"
  let ?m = "next_id s"
  let ?d1 = "removeExistingMessage ?frm (doc s)"
  let ?d2 = "insertFirst ?frm (Elem ?m (newDiv successClasses SuccessBanner) []) ?d1"
  let ?xs = "querySelectorAll (\<lambda>e. isControl (kind e)) ?frm ?d2"
  let ?d3 = "forEach ?xs (\<lambda>i. modify i resetControl) ?d2"
  let ?cs = "[ascii ''error'', ascii ''border-red-500'']"
  let ?ys = "querySelectorAll (hasClass (ascii ''error'')) ?frm ?d3"
  let ?d4 = "forEach ?ys (\<lambda>i. modify i (classList_remove ?cs)) ?d3"
  let ?zs = "querySelectorAll (hasClass (ascii ''error-message'')) ?frm ?d4"
  let ?d5 = "forEach ?zs removeNode ?d4"
  let ?g = "\<lambda>e. e\<lparr>disabled := False, innerHTML := L\<rparr>"
  let ?Q = "\<lambda>(i::nat) e. isControl (kind e) \<longrightarrow>
                  (\<not> valueIsAttribute (kind e) \<longrightarrow> fieldValue e = defaultValue e) \<and>
                  checked e = defaultChecked e"
  have d: "doc (handleFormSuccess (form s) b L s) = modify b ?g ?d5"
    by (simp add: handleFormSuccess_def Let_def form_def)
  have n2: "nid ?d2 = ?frm" by simp
  have n3: "nid ?d3 = ?frm" by (simp add: nid_forEach)
  have n4: "nid ?d4 = ?frm" by (simp add: nid_forEach)
  show "allNodes (\<lambda>i e. i = b \<longrightarrow> \<not> disabled e \<and> innerHTML e = L)
           (doc (handleFormSuccess (form s) b L s))"
    unfolding d by (rule allNodes_modify_at) simp
  \<comment> \<open>the new message\<close>
  have f2: "first_message ?m ?d2"
    by (simp add: first_message_def kids_insertFirst newDiv_def)
  then have f3: "first_message ?m ?d3"
    by (rule forEach_preserves) (simp add: first_message_modify resetControl_def)
  then have f4: "first_message ?m ?d4"
    by (rule forEach_preserves) (simp add: first_message_modify successClasses_kept)
  have "allNodes (\<lambda>i e. i < ?m) (doc s)" using assms by (simp add: tidy_def)
  then have "allNodes (\<lambda>i e. i = ?m \<longrightarrow> \<not> hasClass (ascii ''error-message'') e) (doc s)"
    unfolding allNodes_def by fastforce
  then have "allNodes (\<lambda>i e. i = ?m \<longrightarrow> \<not> hasClass (ascii ''error-message'') e) ?d1"
    by (rule allNodes_removeExistingMessage)
  then have "allNodes (\<lambda>i e. i = ?m \<longrightarrow> \<not> hasClass (ascii ''error-message'') e) ?d2"
    by (rule allNodes_insertFirst) (simp add: allNodes_Elem class_names)
  then have "allNodes (\<lambda>i e. i = ?m \<longrightarrow> \<not> hasClass (ascii ''error-message'') e) ?d3"
    by (rule allNodes_forEach) (simp add: allNodes_modify)
  then have a4: "allNodes (\<lambda>i e. i = ?m \<longrightarrow> \<not> hasClass (ascii ''error-message'') e) ?d4"
    by (rule allNodes_forEach) (simp add: allNodes_modify)
  have mz: "?m \<notin> set ?zs"
  proof
    assume "?m \<in> set ?zs"
    then obtain x where "x \<in> set (nodes ?d4)" "nid x = ?m" "hasClass (ascii ''error-message'') (el x)"
      using querySelectorAll_in by blast
    with a4 show False by (auto simp: allNodes_def)
  qed
  from f4 have f5: "first_message ?m ?d5"
    by (rule forEach_preserves_in) (use mz in \<open>auto intro: first_message_removeNode\<close>)
  then show "first_message ?m (doc (handleFormSuccess (form s) b L s))"
    unfolding d by (rule first_message_modify) simp
  \<comment> \<open>the reset\<close>
  have "below ?Q ?d3"
  proof (rule below_forEach_modify [OF resetControl_idem])
    fix n
    assume n: "n \<in> set (descendants ?d2)"
    show "?Q (nid n) (if nid n \<in> set ?xs then resetControl (el n) else el n)"
    proof (cases "nid n \<in> set ?xs")
      case True
      then show ?thesis by (simp add: resetControl_def)
    next
      case False
      with querySelectorAll_root_mem [OF n, of "\<lambda>e. isControl (kind e)"] n2
      have "\<not> isControl (kind (el n))" by auto
      with False show ?thesis by simp
    qed
  qed
  then have "below ?Q ?d4"
    by (rule forEach_preserves) (simp add: below_modify classList_remove_def)
  then have "below ?Q ?d5"
    by (rule forEach_preserves) (simp add: below_removeNode)
  then show "below ?Q (doc (handleFormSuccess (form s) b L s))"
    unfolding d by (rule below_modify) simp
  \<comment> \<open>the error classes\<close>
  have "below (\<lambda>i e. \<not> hasClass (ascii ''error'') e) ?d4"
  proof (rule below_forEach_modify [OF classList_remove_idem])
    fix n
    assume n: "n \<in> set (descendants ?d3)"
    show "\<not> hasClass (ascii ''error'') (if nid n \<in> set ?ys then classList_remove ?cs (el n) else el n)"
    proof (cases "nid n \<in> set ?ys")
      case True
      then show ?thesis by simp
    next
      case False
      with querySelectorAll_root_mem [OF n, of "hasClass (ascii ''error'')"] n3
      have "\<not> hasClass (ascii ''error'') (el n)" by auto
      with False show ?thesis by simp
    qed
  qed
  then have "below (\<lambda>i e. \<not> hasClass (ascii ''error'') e) ?d5"
    by (rule forEach_preserves) (simp add: below_removeNode)
  then show "below (\<lambda>i e. \<not> hasClass (ascii ''error'') e) (doc (handleFormSuccess (form s) b L s))"
    unfolding d by (rule below_modify) simp
  \<comment> \<open>the error messages\<close>
  have "below (\<lambda>i e. hasClass (ascii ''error-message'') e \<longrightarrow> i \<in> set ?zs) ?d4"
    unfolding below_def using querySelectorAll_root_mem [of _ ?d4 "hasClass (ascii ''error-message'')"] n4
    by auto
  then have "below (\<lambda>i e. hasClass (ascii ''error-message'') e \<longrightarrow> i \<in> set ?zs) ?d5"
    by (rule forEach_preserves) (simp add: below_removeNode)
  then have "below (\<lambda>i e. \<not> hasClass (ascii ''error-message'') e) ?d5"
    unfolding below_def using forEach_removeNode_gone [of _ ?zs ?d4] by blast
  then show "below (\<lambda>i e. \<not> hasClass (ascii ''error-message'') e)
      (doc (handleFormSuccess (form s) b L s))"
    unfolding d by (rule below_modify) simp
qed

subsection \<open>Pending callbacks\<close>

lemma next_id_step:
  assumes "step ev s = Some s'"
  shows "next_id s \<le> next_id s'"
proof -
  have "fieldClosed (\<lambda>d nx. next_id s \<le> nx)" "editClosed (\<lambda>d nx. next_id s \<le> nx)"
    "removalClosed {} (\<lambda>d nx. next_id s \<le> nx)" "successClosed (\<lambda>d nx. next_id s \<le> nx)"
    by (simp_all add: fieldClosed_def editClosed_def removalClosed_def successClosed_def)
  from any_step [OF this _ assms] show ?thesis by simp
qed

lemma messageBelow_mono: "messageBelow nx k \<Longrightarrow> nx \<le> nx' \<Longrightarrow> messageBelow nx' k"
  by (cases k) simp_all

lemma step_Fire:
  assumes "step Fire s = Some s'"
  shows "\<exists>t k. find (\<lambda>(t, k). t \<le> now s) (timers s) = Some (t, k) \<and>
           fired Fire s = Some k \<and> (t, k) \<in> set (timers s) \<and> t \<le> now s \<and>
           s' = runTask k (s\<lparr>timers := remove1 (t, k) (timers s)\<rparr>)"
proof -
  from assms obtain t k where f: "find (\<lambda>(t, k). t \<le> now s) (timers s) = Some (t, k)"
    and s': "s' = runTask k (s\<lparr>timers := remove1 (t, k) (timers s)\<rparr>)"
    by (auto split: option.splits)
  from f have "(t, k) \<in> set (timers s)" "t \<le> now s" by (auto dest: find_SomeD)
  moreover from f have "fired Fire s = Some k" by (simp add: fired_def)
  ultimately show ?thesis using f s' by blast
qed

lemma timers_step:
  assumes "step ev s = Some s'" and "ev \<noteq> Fire"
  shows "timers s' = timers s \<or> (\<exists>b L. timers s' = timers s @ [(now s + 2000, CallHandleFormSuccess b L)])"
proof (cases ev)
  case Submit
  with assms(1) have "s' = snd (submitListener s)" by (simp split: if_splits)
  with submitListener_scalars(2) [of s] show ?thesis by simp
qed (use assms in \<open>auto split: if_splits\<close>)

lemma timers_runTask:
  "timers (runTask k s) =
     timers s @ (case k of RemoveMessage m \<Rightarrow> []
                 | CallHandleFormSuccess b L \<Rightarrow> [(now s + 8000, RemoveMessage (next_id s))])"
  by (cases k) simp_all

lemma timersFresh_step:
  assumes "timersFresh s" and "step ev s = Some s'"
  shows "timersFresh s'"
proof (cases "ev = Fire")
  case False
  from next_id_step [OF assms(2)] assms(1)
  have "list_all (\<lambda>(t, k). messageBelow (next_id s') k) (timers s)"
    unfolding timersFresh_def list_all_iff by (auto intro: messageBelow_mono)
  with timers_step [OF assms(2) False] show ?thesis
    unfolding timersFresh_def by auto
next
  case True
  with assms(2) have "step Fire s = Some s'" by simp
  from step_Fire [OF this]
  obtain t k where s': "s' = runTask k (s\<lparr>timers := remove1 (t, k) (timers s)\<rparr>)"
    by blast
  from next_id_step [OF assms(2)] assms(1)
  have "list_all (\<lambda>(t, k). messageBelow (next_id s') k) (remove1 (t, k) (timers s))"
    unfolding timersFresh_def list_all_iff by (auto intro: messageBelow_mono dest: notin_set_remove1)
  then show ?thesis
    unfolding timersFresh_def s' timers_runTask by (cases k) simp_all
qed

lemma timersFresh_run:
  "timersFresh s \<Longrightarrow> run evs s = Some s' \<Longrightarrow> timersFresh s'"
proof (induction evs arbitrary: s)
  case Nil
  then show ?case by simp
next
  case (Cons ev evs)
  then show ?case using timersFresh_step by (auto split: option.splits)
qed

lemma timerKept_step:
  assumes "timerKept m t8 s" and "step ev s = Some s'"
    and "\<And>k. fired ev s = Some k \<Longrightarrow> removesOther {m} k"
  shows "timerKept m t8 s'"
proof (cases "ev = Fire")
  case False
  with timers_step [OF assms(2) False] assms(1) show ?thesis
    unfolding timerKept_def by auto
next
  case True
  with assms(2) have "step Fire s = Some s'" by simp
  from step_Fire [OF this]
  obtain t k where k: "fired Fire s = Some k"
    and s': "s' = runTask k (s\<lparr>timers := remove1 (t, k) (timers s)\<rparr>)"
    by blast
  from assms(3) k True obtain m' where m': "k = RemoveMessage m'" "m' \<noteq> m"
    by (auto simp: removesOther_iff)
  then have "(t8, RemoveMessage m) \<noteq> (t, k)" by simp
  with assms(1) have "(t8, RemoveMessage m) \<in> set (remove1 (t, k) (timers s))"
    unfolding timerKept_def by simp
  moreover have "list_all (\<lambda>(t, k). k = RemoveMessage m \<longrightarrow> t = t8) (remove1 (t, k) (timers s))"
    using assms(1) unfolding timerKept_def list_all_iff by (auto dest: notin_set_remove1)
  ultimately show ?thesis unfolding timerKept_def s' m' by simp
qed

lemma timerKept_run:
  "timerKept m t8 s \<Longrightarrow> run evs s = Some s' \<Longrightarrow>
     list_all (removesOther {m}) (firedAlong evs s) \<Longrightarrow> timerKept m t8 s'"
proof (induction evs arbitrary: s)
  case Nil
  then show ?case by simp
next
  case (Cons ev evs)
  from Cons.prems(2) obtain s1 where s1: "step ev s = Some s1" "run evs s1 = Some s'"
    by (auto split: option.splits)
  from Cons.prems(3) s1(1) have r: "list_all (removesOther {m}) (firedAlong evs s1)"
    by (auto split: option.splits)
  from Cons.prems(3) s1(1) have f: "\<And>k. fired ev s = Some k \<Longrightarrow> removesOther {m} k"
    by auto
  from timerKept_step [OF Cons.prems(1) s1(1) f] have "timerKept m t8 s1" by blast
  from Cons.IH [OF this s1(2) r] show ?case .
qed

lemma timerKept_success:
  assumes "timersFresh s"
  shows "timerKept (next_id s) (now s + 8000) (handleFormSuccess frm b L (s\<lparr>timers := remove1 x (timers s)\<rparr>))"
proof -
  have "messageBelow (next_id s) k" if "(t, k) \<in> set (remove1 x (timers s))" for t k
    using that assms unfolding timersFresh_def list_all_iff by (auto dest: notin_set_remove1)
  then have "k \<noteq> RemoveMessage (next_id s)" if "(t, k) \<in> set (remove1 x (timers s))" for t k
    using that by fastforce
  then show ?thesis unfolding timerKept_def list_all_iff by auto
qed

subsection \<open>A callback stays pending until it runs\<close>

lemma pending_step:
  assumes "x \<in> set (timers s)" and "step ev s = Some s'" and "fired ev s \<noteq> Some (snd x)"
  shows "x \<in> set (timers s')"
proof (cases "ev = Fire")
  case False
  with timers_step [OF assms(2) False] assms(1) show ?thesis by auto
next
  case True
  with assms(2) have "step Fire s = Some s'" by simp
  from step_Fire [OF this]
  obtain t k where k: "fired Fire s = Some k"
    and s': "s' = runTask k (s\<lparr>timers := remove1 (t, k) (timers s)\<rparr>)"
    by blast
  from assms(3) k True have "x \<noteq> (t, k)" by auto
  with assms(1) have "x \<in> set (remove1 (t, k) (timers s))" by simp
  then show ?thesis unfolding s' timers_runTask by simp
qed

lemma pending_run:
  "x \<in> set (timers s) \<Longrightarrow> run evs s = Some s' \<Longrightarrow>
     list_all (\<lambda>k. k \<noteq> snd x) (firedAlong evs s) \<Longrightarrow> x \<in> set (timers s')"
proof (induction evs arbitrary: s)
  case Nil
  then show ?case by simp
next
  case (Cons ev evs)
  from Cons.prems(2) obtain s1 where s1: "step ev s = Some s1" "run evs s1 = Some s'"
    by (auto split: option.splits)
  from Cons.prems(3) s1(1) have r: "list_all (\<lambda>k. k \<noteq> snd x) (firedAlong evs s1)"
    by (auto split: option.splits)
  from Cons.prems(3) s1(1) have f: "fired ev s \<noteq> Some (snd x)"
    by (auto split: option.splits)
  from pending_step [OF Cons.prems(1) s1(1) f] have "x \<in> set (timers s1)" .
  from Cons.IH [OF this s1(2) r] show ?case .
qed

lemma pending_due:
  assumes "timersAhead s" and "(t, k) \<in> set (timers s)"
  shows "now s \<le> t" and "now s = t \<Longrightarrow> \<exists>s'. step Fire s = Some s'"
proof -
  from assms show "now s \<le> t" by (auto simp: timersAhead_def list_all_iff)
  assume "now s = t"
  with assms(2) obtain y where "find (\<lambda>(t, k). t \<le> now s) (timers s) = Some y"
    using find_first [of "(t, k)" "timers s" "\<lambda>(t, k). t \<le> now s"] by auto
  then show "\<exists>s'. step Fire s = Some s'" by (cases y) simp
qed

lemma formMessages_single:
  assumes "tidy (doc s) (next_id s)" and "first_message m (doc s)"
  shows "formMessages s = [m]"
proof -
  from first_message_classes [OF assms(2)] obtain n where n: "n \<in> set (kids (doc s))" "nid n = m"
    "hasClass (ascii ''form-message'') (el n)" by blast
  from n(1) have "n \<in> set (descendants (doc s))"
    using nodes_self [of n] by (simp only: descendants_iff [of n "doc s"]) blast
  with n(2,3) have "m \<in> set (formMessages s)"
    by (force simp: formMessages_def form_def querySelectorAll_def)
  moreover from assms(1) have "length (formMessages s) \<le> 1" by (simp add: tidy_iff)
  ultimately show ?thesis by (cases "formMessages s") auto
qed

lemma formMessages_removed:
  assumes "doc s' = removeNode m (doc s)"
  shows "m \<notin> set (formMessages s')"
proof
  assume a: "m \<in> set (formMessages s')"
  have "formMessages s' = map nid (filter (\<lambda>n. hasClass (ascii ''form-message'') (el n))
          (descendants (doc s')))"
    by (simp add: formMessages_def form_def querySelectorAll_def)
  with a obtain n where "n \<in> set (descendants (removeNode m (doc s)))" "nid n = m"
    unfolding assms by auto
  with descendants_removeNode_neq show False by blast
qed

lemma tidy_timers [simp]: "doc (s\<lparr>timers := ts\<rparr>) = doc s" "next_id (s\<lparr>timers := ts\<rparr>) = next_id s"
  "now (s\<lparr>timers := ts\<rparr>) = now s" "form (s\<lparr>timers := ts\<rparr>) = form s"
  by (simp_all add: form_def)

lemma submit_valid_form:
  assumes "tidy (doc s) (next_id s)" and "submitEnabled s"
    and "validateForm (form s) s = Inr (True, s1)"
    and "querySelector isSubmitButton (form s1) (doc s1) = Some bn"
  shows "\<exists>s2. step Submit s = Some s2 \<and> nid bn < next_id s2 \<and>
           allNodes (\<lambda>i e. i = nid bn \<longrightarrow> disabled e \<and> innerHTML e = SpinnerLabel) (doc s2) \<and>
           now s2 = now s \<and>
           timers s2 = timers s @ [(now s + 2000, CallHandleFormSuccess (nid bn) (innerHTML (el bn)))]"
proof -
  let ?s2 = "setTimeout (CallHandleFormSuccess (nid bn) (innerHTML (el bn))) 2000
      (s1\<lparr>doc := modify (nid bn) (\<lambda>e. e\<lparr>disabled := True, innerHTML := SpinnerLabel\<rparr>) (doc s1)\<rparr>)"
  have "submitListener s = (None, ?s2)"
    using assms(3,4) by (simp add: submitListener_def Let_def)
  with assms(2) have st: "step Submit s = Some ?s2" by simp
  have "case validateFields (querySelectorAll (\<lambda>e. isControl (kind e)) (form s) (doc s)) s of
      Inl (e, s') \<Rightarrow> tidy (doc s') (next_id s') | Inr (ok, s') \<Rightarrow> tidy (doc s') (next_id s')"
    using tidy_fieldClosed assms(1) by (rule fieldClosed_validateFields)
  with assms(3) have "tidy (doc s1) (next_id s1)" by (simp add: validateForm_def)
  moreover from assms(4) have "bn \<in> set (nodes (doc s1))" by (rule querySelector_in)
  ultimately have "nid bn < next_id s1" by (auto simp: tidy_def allNodes_def)
  then have "nid bn < next_id ?s2" by simp
  moreover have "allNodes (\<lambda>i e. i = nid bn \<longrightarrow> disabled e \<and> innerHTML e = SpinnerLabel) (doc ?s2)"
    by (simp add: allNodes_modify_at)
  moreover have "case validateFields (querySelectorAll (\<lambda>e. isControl (kind e)) (form s) (doc s)) s of
      Inl (e, s') \<Rightarrow> timers s' = timers s \<and> now s' = now s \<and> form s' = form s \<and> next_id s \<le> next_id s'
    | Inr (ok, s') \<Rightarrow> timers s' = timers s \<and> now s' = now s \<and> form s' = form s \<and> next_id s \<le> next_id s'"
    by (rule validateFields_scalars)
  with assms(3) have "timers s1 = timers s" "now s1 = now s" by (simp_all add: validateForm_def)
  then have "now ?s2 = now s"
    "timers ?s2 = timers s @ [(now s + 2000, CallHandleFormSuccess (nid bn) (innerHTML (el bn)))]"
    by simp_all
  ultimately show ?thesis using st by blast
qed

lemma success_callback:
  assumes "tidy (doc s3) (next_id s3)" and "timersFresh s3" and "timersAhead s3"
    and "fired Fire s3 = Some (CallHandleFormSuccess b L)" and "step Fire s3 = Some s4"
  shows "allNodes (\<lambda>i e. i = b \<longrightarrow> \<not> disabled e \<and> innerHTML e = L) (doc s4)"
    and "first_message (next_id s3) (doc s4)"
    and "formMessages s4 = [next_id s3]"
    and "below (\<lambda>i e. isControl (kind e) \<longrightarrow>
                  (\<not> valueIsAttribute (kind e) \<longrightarrow> fieldValue e = defaultValue e) \<and>
                  checked e = defaultChecked e) (doc s4)"
    and "below (\<lambda>i e. \<not> hasClass (ascii ''error'') e) (doc s4)"
    and "below (\<lambda>i e. \<not> hasClass (ascii ''error-message'') e) (doc s4)"
    and "bannerKept (next_id s3) (doc s4) (next_id s4)"
    and "timerKept (next_id s3) (now s3 + 8000) s4"
    and "timersAhead s4"
proof -
  from step_Fire [OF assms(5)] assms(4)
  obtain x where s4: "s4 = handleFormSuccess (form s3) b L (s3\<lparr>timers := remove1 x (timers s3)\<rparr>)"
    by auto
  let ?s = "s3\<lparr>timers := remove1 x (timers s3)\<rparr>"
  have t: "tidy (doc ?s) (next_id ?s)" using assms(1) by simp
  have f: "form ?s = form s3" by simp
  note S = success_state [OF t, of b L, unfolded f, folded s4]
  from S(1) show "allNodes (\<lambda>i e. i = b \<longrightarrow> \<not> disabled e \<and> innerHTML e = L) (doc s4)" by simp
  from S(2) show fm: "first_message (next_id s3) (doc s4)" by simp
  from S(3) show "below (\<lambda>i e. isControl (kind e) \<longrightarrow>
                  (\<not> valueIsAttribute (kind e) \<longrightarrow> fieldValue e = defaultValue e) \<and>
                  checked e = defaultChecked e) (doc s4)" .
  from S(4) show "below (\<lambda>i e. \<not> hasClass (ascii ''error'') e) (doc s4)" .
  from S(5) show "below (\<lambda>i e. \<not> hasClass (ascii ''error-message'') e) (doc s4)" .
  have t4: "tidy (doc s4) (next_id s4)"
    using handleFormSuccess_tidy(1) [OF t, of b L] unfolding f s4 .
  from formMessages_single [OF t4 fm] show "formMessages s4 = [next_id s3]" .
  from t4 first_message_classes [OF fm] show "bannerKept (next_id s3) (doc s4) (next_id s4)"
    unfolding bannerKept_def by blast
  from timerKept_success [OF assms(2), of "form s3" b L x]
  show "timerKept (next_id s3) (now s3 + 8000) s4" unfolding s4 .
  from timersAhead_step [OF assms(3,5)] show "timersAhead s4" .
qed

lemma message_lifetime:
  assumes "bannerKept m (doc s4) (next_id s4)" and "timerKept m t8 s4" and "timersAhead s4"
    and "run evs s4 = Some s5" and "list_all (removesOther {m}) (firedAlong evs s4)"
  shows "m \<in> set (formMessages s5)" and "now s5 \<le> t8"
    and "(t8, RemoveMessage m) \<in> set (timers s5)"
    and "fired Fire s5 = Some (RemoveMessage m) \<Longrightarrow> step Fire s5 = Some s6 \<Longrightarrow>
           now s5 = t8 \<and> m \<notin> set (formMessages s6)"
proof -
  have b5: "bannerKept m (doc s5) (next_id s5)"
    using quiet_run [OF bannerKept_fieldClosed bannerKept_editClosed bannerKept_removalClosed
        assms(1,4,5)] .
  then show "m \<in> set (formMessages s5)" by (rule bannerKept_shown)
  have k5: "timerKept m t8 s5" using timerKept_run [OF assms(2,4,5)] .
  have a5: "timersAhead s5" using timersAhead_run [OF assms(3,4)] .
  from k5 a5 show "now s5 \<le> t8" by (auto simp: timerKept_def timersAhead_def list_all_iff)
  from k5 show "(t8, RemoveMessage m) \<in> set (timers s5)" by (simp add: timerKept_def)
  assume f: "fired Fire s5 = Some (RemoveMessage m)" and st: "step Fire s5 = Some s6"
  from step_Fire [OF st] f obtain t where
    fd: "find (\<lambda>(t, k). t \<le> now s5) (timers s5) = Some (t, RemoveMessage m)"
    and mem: "(t, RemoveMessage m) \<in> set (timers s5)"
    and s6: "s6 = runTask (RemoveMessage m) (s5\<lparr>timers := remove1 (t, RemoveMessage m) (timers s5)\<rparr>)"
    by auto
  from due_exactly [OF a5 fd] have "t = now s5" .
  moreover from k5 mem have "t = t8" by (auto simp: timerKept_def list_all_iff)
  ultimately have "now s5 = t8" by simp
  moreover from bannerKept_shown(2) [OF b5] s6 have "doc s6 = removeNode m (doc s5)" by simp
  then have "m \<notin> set (formMessages s6)" by (rule formMessages_removed)
  ultimately show "now s5 = t8 \<and> m \<notin> set (formMessages s6)" by blast
qed

text \<open>
  Claim C4, as amended. On a page whose elements have distinct identities, with at most one
  form message and every pending callback due in the future, the submission of a form in
  which all fields validate disables the submit control, shows the loading label and
  schedules the success handler 2000 ms later. As long as no submission completes, the
  control stays disabled, the handler stays pending, the clock does not pass its due time,
  and at the due time a callback can run. When the handler of the submission runs, the
  control is enabled again with its original label; the new success message is the first
  child of the form and the only form message; every control of the form has its default
  checkedness and, unless its value is its value attribute, its default value; no element of
  the form has the class \<open>error\<close> and no error message is left. From then on, as long as no
  later submission completes, the message stays in the form, its removal stays pending and
  the clock does not pass 8000 ms after the insertion; the callback that removes the message
  runs exactly 8000 ms after the insertion, and after it the message is gone.
\<close>

theorem submit_lifecycle:
  assumes "wellFormed s" and "length (formMessages s) \<le> 1"
    and "timersAhead s" and "timersFresh s" and "submitEnabled s"
    and "validateForm (form s) s = Inr (True, s1)"
    and "querySelector isSubmitButton (form s1) (doc s1) = Some bn"
  shows "\<exists>s2. step Submit s = Some s2
      \<and> allNodes (\<lambda>i e. i = nid bn \<longrightarrow> disabled e \<and> innerHTML e = SpinnerLabel) (doc s2)
      \<and> now s2 = now s
      \<and> timers s2 = timers s @ [(now s + 2000, CallHandleFormSuccess (nid bn) (innerHTML (el bn)))]
      \<and> (\<forall>evs s3.
            run evs s2 = Some s3 \<and> list_all (removesOther {}) (firedAlong evs s2) \<longrightarrow>
              allNodes (\<lambda>i e. i = nid bn \<longrightarrow> disabled e) (doc s3)
            \<and> (now s + 2000, CallHandleFormSuccess (nid bn) (innerHTML (el bn))) \<in> set (timers s3)
            \<and> now s3 \<le> now s + 2000
            \<and> (now s3 = now s + 2000 \<longrightarrow> (\<exists>s4. step Fire s3 = Some s4))
            \<and> (\<forall>s4.
                  fired Fire s3 = Some (CallHandleFormSuccess (nid bn) (innerHTML (el bn))) \<and>
                  step Fire s3 = Some s4 \<longrightarrow>
                    allNodes (\<lambda>i e. i = nid bn \<longrightarrow>
                                \<not> disabled e \<and> innerHTML e = innerHTML (el bn)) (doc s4)
                  \<and> (\<exists>e ks. kids (doc s4) = Elem (next_id s3) e [] # ks \<and>
                              classList e = successClasses)
                  \<and> formMessages s4 = [next_id s3]
                  \<and> below (\<lambda>i e. isControl (kind e) \<longrightarrow>
                          (\<not> valueIsAttribute (kind e) \<longrightarrow> fieldValue e = defaultValue e) \<and>
                          checked e = defaultChecked e) (doc s4)
                  \<and> below (\<lambda>i e. \<not> hasClass (ascii ''error'') e) (doc s4)
                  \<and> below (\<lambda>i e. \<not> hasClass (ascii ''error-message'') e) (doc s4)
                  \<and> (\<forall>evs' s5.
                        run evs' s4 = Some s5 \<and>
                        list_all (removesOther {next_id s3}) (firedAlong evs' s4) \<longrightarrow>
                          next_id s3 \<in> set (formMessages s5)
                        \<and> (now s3 + 8000, RemoveMessage (next_id s3)) \<in> set (timers s5)
                        \<and> now s5 \<le> now s3 + 8000
                        \<and> (\<forall>s6. fired Fire s5 = Some (RemoveMessage (next_id s3)) \<and>
                                step Fire s5 = Some s6 \<longrightarrow>
                                  now s5 = now s3 + 8000 \<and>
                                  next_id s3 \<notin> set (formMessages s6)))))"
proof -
  let ?k = "CallHandleFormSuccess (nid bn) (innerHTML (el bn))"
  from assms(1,2) have t: "tidy (doc s) (next_id s)" by (simp add: tidy_iff)
  from submit_valid_form [OF t assms(5,6,7)] obtain s2 where
    st: "step Submit s = Some s2" and lt: "nid bn < next_id s2"
    and dis: "allNodes (\<lambda>i e. i = nid bn \<longrightarrow> disabled e \<and> innerHTML e = SpinnerLabel) (doc s2)"
    and n2: "now s2 = now s" and tm: "timers s2 = timers s @ [(now s + 2000, ?k)]"
    by blast
  from dis have dis2: "allNodes (\<lambda>i e. i = nid bn \<longrightarrow> disabled e) (doc s2)"
    by (simp add: allNodes_def)
  from tm have pend: "(now s + 2000, ?k) \<in> set (timers s2)" by simp
  have later: "allNodes (\<lambda>i e. i = nid bn \<longrightarrow> disabled e) (doc s3)
            \<and> (now s + 2000, ?k) \<in> set (timers s3)
            \<and> now s3 \<le> now s + 2000
            \<and> (now s3 = now s + 2000 \<longrightarrow> (\<exists>s4. step Fire s3 = Some s4))
            \<and> (\<forall>s4.
                  fired Fire s3 = Some ?k \<and> step Fire s3 = Some s4 \<longrightarrow>
                    allNodes (\<lambda>i e. i = nid bn \<longrightarrow>
                                \<not> disabled e \<and> innerHTML e = innerHTML (el bn)) (doc s4)
                  \<and> (\<exists>e ks. kids (doc s4) = Elem (next_id s3) e [] # ks \<and>
                              classList e = successClasses)
                  \<and> formMessages s4 = [next_id s3]
                  \<and> below (\<lambda>i e. isControl (kind e) \<longrightarrow>
                          (\<not> valueIsAttribute (kind e) \<longrightarrow> fieldValue e = defaultValue e) \<and>
                          checked e = defaultChecked e) (doc s4)
                  \<and> below (\<lambda>i e. \<not> hasClass (ascii ''error'') e) (doc s4)
                  \<and> below (\<lambda>i e. \<not> hasClass (ascii ''error-message'') e) (doc s4)
                  \<and> (\<forall>evs' s5.
                        run evs' s4 = Some s5 \<and>
                        list_all (removesOther {next_id s3}) (firedAlong evs' s4) \<longrightarrow>
                          next_id s3 \<in> set (formMessages s5)
                        \<and> (now s3 + 8000, RemoveMessage (next_id s3)) \<in> set (timers s5)
                        \<and> now s5 \<le> now s3 + 8000
                        \<and> (\<forall>s6. fired Fire s5 = Some (RemoveMessage (next_id s3)) \<and>
                                step Fire s5 = Some s6 \<longrightarrow>
                                  now s5 = now s3 + 8000 \<and>
                                  next_id s3 \<notin> set (formMessages s6))))"
    if h: "run evs s2 = Some s3 \<and> list_all (removesOther {}) (firedAlong evs s2)" for evs s3
  proof -
    from h have r: "run evs s2 = Some s3" and q: "list_all (removesOther {}) (firedAlong evs s2)"
      by simp_all
    from st r have r0: "run (Submit # evs) s = Some s3" by simp
    from tidy_run [OF _ r0] assms(1,2) have t3: "tidy (doc s3) (next_id s3)" by (simp add: tidy_iff)
    from timersAhead_run [OF assms(3) r0] have a3: "timersAhead s3" .
    from timersFresh_run [OF assms(4) r0] have f3: "timersFresh s3" .
    from stays_disabled [OF lt dis2 r q]
    have c0: "allNodes (\<lambda>i e. i = nid bn \<longrightarrow> disabled e) (doc s3)" .
    from q have "list_all (\<lambda>k. k \<noteq> snd (now s + 2000, ?k)) (firedAlong evs s2)"
      unfolding list_all_iff by (auto simp: removesOther_iff)
    from pending_run [OF pend r this] have p3: "(now s + 2000, ?k) \<in> set (timers s3)" .
    note P = pending_due [OF a3 p3]
    from P(1) have c1: "now s3 \<le> now s + 2000" .
    from P(2) have c1': "now s3 = now s + 2000 \<longrightarrow> (\<exists>s4. step Fire s3 = Some s4)" by blast
    have c9: "allNodes (\<lambda>i e. i = nid bn \<longrightarrow>
                                \<not> disabled e \<and> innerHTML e = innerHTML (el bn)) (doc s4)
                  \<and> (\<exists>e ks. kids (doc s4) = Elem (next_id s3) e [] # ks \<and>
                              classList e = successClasses)
                  \<and> formMessages s4 = [next_id s3]
                  \<and> below (\<lambda>i e. isControl (kind e) \<longrightarrow>
                          (\<not> valueIsAttribute (kind e) \<longrightarrow> fieldValue e = defaultValue e) \<and>
                          checked e = defaultChecked e) (doc s4)
                  \<and> below (\<lambda>i e. \<not> hasClass (ascii ''error'') e) (doc s4)
                  \<and> below (\<lambda>i e. \<not> hasClass (ascii ''error-message'') e) (doc s4)
                  \<and> (\<forall>evs' s5.
                        run evs' s4 = Some s5 \<and>
                        list_all (removesOther {next_id s3}) (firedAlong evs' s4) \<longrightarrow>
                          next_id s3 \<in> set (formMessages s5)
                        \<and> (now s3 + 8000, RemoveMessage (next_id s3)) \<in> set (timers s5)
                        \<and> now s5 \<le> now s3 + 8000
                        \<and> (\<forall>s6. fired Fire s5 = Some (RemoveMessage (next_id s3)) \<and>
                                step Fire s5 = Some s6 \<longrightarrow>
                                  now s5 = now s3 + 8000 \<and>
                                  next_id s3 \<notin> set (formMessages s6)))"
      if h4: "fired Fire s3 = Some ?k \<and> step Fire s3 = Some s4" for s4
    proof -
      from h4 have f: "fired Fire s3 = Some ?k" and st4: "step Fire s3 = Some s4" by simp_all
      note C = success_callback [OF t3 f3 a3 f st4]
      from C(2) have c2: "\<exists>e ks. kids (doc s4) = Elem (next_id s3) e [] # ks \<and>
          classList e = successClasses"
        by (simp add: first_message_def)
      have c8: "next_id s3 \<in> set (formMessages s5)
                        \<and> (now s3 + 8000, RemoveMessage (next_id s3)) \<in> set (timers s5)
                        \<and> now s5 \<le> now s3 + 8000
                        \<and> (\<forall>s6. fired Fire s5 = Some (RemoveMessage (next_id s3)) \<and>
                                step Fire s5 = Some s6 \<longrightarrow>
                                  now s5 = now s3 + 8000 \<and>
                                  next_id s3 \<notin> set (formMessages s6))"
        if h5: "run evs' s4 = Some s5 \<and> list_all (removesOther {next_id s3}) (firedAlong evs' s4)"
        for evs' s5
      proof -
        from h5 have r5: "run evs' s4 = Some s5"
          and q5: "list_all (removesOther {next_id s3}) (firedAlong evs' s4)" by simp_all
        note D = message_lifetime [OF C(7) C(8) C(9) r5 q5]
        from D(1) D(2) D(3) D(4) show ?thesis by blast
      qed
      from C(1) c2 C(3) C(4) C(5) C(6) c8 show ?thesis by blast
    qed
    from c0 p3 c1 c1' c9 show ?thesis by blast
  qed
  from st dis n2 tm later show ?thesis by blast
qed

theorem submit_lifecycle_witness:
  "map_option timers (run [Submit] filledPage) = Some [(2000, CallHandleFormSuccess 5 (Html []))]
   \<and> map_option formMessages (run [Submit, Wait 2000, Fire] filledPage) = Some [6]
   \<and> map_option (\<lambda>s. getNode 2 (doc s)) (run [Submit, Wait 2000, Fire] filledPage) =
       Some (Some (Elem 2 (control (Input (ascii ''text'')) (ascii ''note'') [] False False) []))
   \<and> map_option (\<lambda>s. getNode 4 (doc s)) (run [Submit, Wait 2000, Fire] filledPage) =
       Some (Some (Elem 4 (control (Input (ascii ''checkbox'')) (ascii ''privacy'') (ascii ''on'')
                             True False) []))
   \<and> map_option (\<lambda>s. 6 \<in> set (formMessages s))
        (run [Submit, Wait 2000, Fire, Wait 8000] filledPage) = Some True
   \<and> map_option now (run [Submit, Wait 2000, Fire, Wait 8000] filledPage) = Some 10000
   \<and> map_option (\<lambda>s. 6 \<in> set (formMessages s))
        (run [Submit, Wait 2000, Fire, Wait 8000, Fire] filledPage) = Some False"
proof -
  let ?P = "filledPage"
  let ?bn = "Elem 5 (control (Button (Some (ascii ''submit''))) [] [] False False) []"
  let ?k = "CallHandleFormSuccess (nid ?bn) (innerHTML (el ?bn))"
  have h1: "wellFormed ?P" by (simp add: wellFormed_def filledPage_def eval_defs)
  have h2: "length (formMessages ?P) \<le> 1" by (simp add: filledPage_def eval_defs)
  have h3: "timersAhead ?P" by (simp add: timersAhead_def filledPage_def)
  have h4: "timersFresh ?P" by (simp add: timersFresh_def filledPage_def)
  have h5: "submitEnabled ?P" by (simp add: filledPage_def eval_defs)
  have h6: "validateForm (form ?P) ?P = Inr (True, ?P)" by (simp add: filledPage_def eval_defs)
  have h7: "querySelector isSubmitButton (form ?P) (doc ?P) = Some ?bn"
    by (simp add: filledPage_def eval_defs)
  have "\<exists>s2 s3 s4 s5 s6. step Submit ?P = Some s2 \<and> step (Wait 2000) s2 = Some s3 \<and>
      fired Fire s3 = Some ?k \<and>
      step Fire s3 = Some s4 \<and> next_id s3 = 6 \<and> now s3 = 2000 \<and>
      getNode 2 (doc s4) = Some (Elem 2 (control (Input (ascii ''text'')) (ascii ''note'') [] False False) []) \<and>
      getNode 4 (doc s4) = Some (Elem 4 (control (Input (ascii ''checkbox'')) (ascii ''privacy'') (ascii ''on'')
                             True False) []) \<and>
      step (Wait 8000) s4 = Some s5 \<and> fired Fire s5 = Some (RemoveMessage 6) \<and>
      step Fire s5 = Some s6"
    by (simp add: fired_def filledPage_def eval_defs)
  then obtain s2 s3 s4 s5 s6 where
    t2: "step Submit ?P = Some s2" and t3: "step (Wait 2000) s2 = Some s3"
    and f3: "fired Fire s3 = Some ?k"
    and t4: "step Fire s3 = Some s4" and n3: "next_id s3 = 6" "now s3 = 2000"
    and g2: "getNode 2 (doc s4) = Some (Elem 2 (control (Input (ascii ''text'')) (ascii ''note'') [] False False) [])"
    and g4: "getNode 4 (doc s4) = Some (Elem 4 (control (Input (ascii ''checkbox'')) (ascii ''privacy'') (ascii ''on'')
                             True False) [])"
    and t5: "step (Wait 8000) s4 = Some s5" and f5: "fired Fire s5 = Some (RemoveMessage 6)"
    and t6: "step Fire s5 = Some s6"
    by blast
  have n0: "now ?P = 0" "timers ?P = []" by (simp_all add: filledPage_def)
  from submit_lifecycle [OF h1 h2 h3 h4 h5 h6 h7] t2 n0
  have tm: "timers s2 = [(2000, ?k)]"
    and all: "\<forall>evs s3.
            run evs s2 = Some s3 \<and> list_all (removesOther {}) (firedAlong evs s2) \<longrightarrow>
              (\<forall>s4. fired Fire s3 = Some ?k \<and> step Fire s3 = Some s4 \<longrightarrow>
                formMessages s4 = [next_id s3]
              \<and> (\<forall>evs' s5.
                  run evs' s4 = Some s5 \<and>
                  list_all (removesOther {next_id s3}) (firedAlong evs' s4) \<longrightarrow>
                    next_id s3 \<in> set (formMessages s5)
                  \<and> (\<forall>s6. fired Fire s5 = Some (RemoveMessage (next_id s3)) \<and>
                          step Fire s5 = Some s6 \<longrightarrow>
                            now s5 = now s3 + 8000 \<and> next_id s3 \<notin> set (formMessages s6))))"
    by auto
  have q3: "run [Wait 2000] s2 = Some s3 \<and> list_all (removesOther {}) (firedAlong [Wait 2000] s2)"
    using t3 by (simp add: fired_def)
  have q4: "fired Fire s3 = Some ?k \<and> step Fire s3 = Some s4" using f3 t4 by simp
  from all [rule_format, OF q3 q4] n3 have m4: "formMessages s4 = [6]"
    and rest: "\<forall>evs' s5.
                  run evs' s4 = Some s5 \<and> list_all (removesOther {6}) (firedAlong evs' s4) \<longrightarrow>
                    6 \<in> set (formMessages s5)
                  \<and> (\<forall>s6. fired Fire s5 = Some (RemoveMessage 6) \<and> step Fire s5 = Some s6 \<longrightarrow>
                            now s5 = 10000 \<and> 6 \<notin> set (formMessages s6))"
    by simp_all
  have q5: "run [Wait 8000] s4 = Some s5 \<and> list_all (removesOther {6}) (firedAlong [Wait 8000] s4)"
    using t5 by (simp add: fired_def)
  from rest [rule_format, OF q5] f5 t6
  have m5: "6 \<in> set (formMessages s5)" and n5: "now s5 = 10000" and m6: "6 \<notin> set (formMessages s6)"
    by simp_all
  have r2: "run [Submit] ?P = Some s2" using t2 by simp
  have r4: "run [Submit, Wait 2000, Fire] ?P = Some s4" using t2 t3 t4 by simp
  have r5: "run [Submit, Wait 2000, Fire, Wait 8000] ?P = Some s5" using t2 t3 t4 t5 by simp
  have r6: "run [Submit, Wait 2000, Fire, Wait 8000, Fire] ?P = Some s6"
    using t2 t3 t4 t5 t6 by simp
  show ?thesis unfolding r2 r4 r5 r6 using tm m4 g2 g4 m5 n5 m6 by (simp add: control_def)
qed

text \<open>
  Claim C4 as stated keeps every success message in the form for 8 seconds. On the small form,
  the message 6 of a first submission is inserted at 2000 ms. The user ticks the box again and
  submits at 7000 ms; when that submission completes at 9000 ms, its handler removes message 6,
  7000 ms after the insertion, and inserts message 7.
\<close>

theorem success_message_counterexample:
  "map_option formMessages (run [Submit, Wait 2000, Fire] (miniPage True)) = Some [6]
   \<and> map_option now (run [Submit, Wait 2000, Fire] (miniPage True)) = Some 2000
   \<and> map_option formMessages
        (run [Submit, Wait 2000, Fire, UserSets 4 (ascii ''on'') True, Wait 5000, Submit, Wait 2000, Fire]
           (miniPage True)) = Some [7]
   \<and> map_option now
        (run [Submit, Wait 2000, Fire, UserSets 4 (ascii ''on'') True, Wait 5000, Submit, Wait 2000, Fire]
           (miniPage True)) = Some 9000"
proof -
  have a: "map_option formMessages (run [Submit, Wait 2000, Fire] (miniPage True)) = Some [6]"
    by (simp add: eval_defs)
  have b: "map_option now (run [Submit, Wait 2000, Fire] (miniPage True)) = Some 2000"
    by (simp add: eval_defs)
  have c: "map_option formMessages
        (run [Submit, Wait 2000, Fire, UserSets 4 (ascii ''on'') True, Wait 5000, Submit, Wait 2000, Fire]
           (miniPage True)) = Some [7]"
    by (simp add: eval_defs)
  have d: "map_option now
        (run [Submit, Wait 2000, Fire, UserSets 4 (ascii ''on'') True, Wait 5000, Submit, Wait 2000, Fire]
           (miniPage True)) = Some 9000"
    by (simp add: eval_defs)
  from a b c d show ?thesis by blast
qed

end
